theory Spec2Isabelle
  imports Main "HOL-Library.Word"
begin

section \<open>The generic power-management dispatcher (kernel/pm.c)\<close>

text \<open>
  A \<open>struct pm_dev\<close> lives at an address returned by \<open>kmalloc\<close>; the registry
  \<open>pm_devs\<close> is the circular list of these structures, read here from \<open>pm_devs.next\<close>
  onwards, each entry paired with its address (the handle callers hold).

  A request is \<open>PM_SUSPEND\<close>, \<open>PM_RESUME\<close> or one of the other values of
  \<open>pm_request_t\<close>, which \<open>pm_send\<close> treats alike (its \<open>default\<close> branch).
  The \<open>void *data\<close> argument carries the target state and is read as an \<open>int\<close>.
  A driver callback is a function of the request and the data that returns a status
  (zero accepts); the pointer may be \<open>NULL\<close>.
\<close>

type_synonym addr = nat

datatype pm_request = PM_SUSPEND | PM_RESUME | PM_OTHER nat

type_synonym pm_callback = "pm_request \<Rightarrow> int \<Rightarrow> int"

record pm_dev =
  dev_type :: nat
  dev_id :: nat
  callback :: "pm_callback option"
  state :: int
  prev_state :: int

type_synonym registry = "(addr \<times> pm_dev) list"

text \<open>One callback invocation: the device it was made on, the request and the data.\<close>

type_synonym pm_call = "addr \<times> pm_request \<times> int"

text \<open>
  \<open>list_add\<close> and \<open>list_del\<close> come from \<open>include/linux/list.h\<close>, which is not among
  the source files at hand. They are modelled after the kernel list interface the
  call sites rely on: \<open>list_add(new, head)\<close> links \<open>new\<close> between \<open>head\<close> and
  \<open>head->next\<close>, so the new entry becomes the first one a traversal from
  \<open>head->next\<close> meets; \<open>list_del(entry)\<close> unlinks that one entry. Addresses of live
  entries are pairwise different, so removing by address removes exactly the entry.
\<close>

definition list_add :: "'a \<Rightarrow> 'a list \<Rightarrow> 'a list" where
  "list_add new head = new # head"

definition list_del :: "addr \<Rightarrow> (addr \<times> 'b) list \<Rightarrow> (addr \<times> 'b) list" where
  "list_del a head = filter (\<lambda>e. fst e \<noteq> a) head"

text \<open>
  \<open>pm_register\<close>: the first argument is what \<open>kmalloc\<close> returns (\<open>None\<close> for
  \<open>NULL\<close>); the structure is zeroed by \<open>memset\<close> before its three fields are set.
\<close>

definition pm_register ::
  "addr option \<Rightarrow> nat \<Rightarrow> nat \<Rightarrow> pm_callback option \<Rightarrow> registry \<Rightarrow> addr option \<times> registry" where
  "pm_register kmalloc type ident cb devs =
     (case kmalloc of
        None \<Rightarrow> (None, devs)
      | Some dev \<Rightarrow>
          (Some dev,
           list_add (dev, \<lparr>dev_type = type, dev_id = ident, callback = cb,
                           state = 0, prev_state = 0\<rparr>) devs))"

definition pm_unregister :: "addr option \<Rightarrow> registry \<Rightarrow> registry" where
  "pm_unregister dev devs =
     (case dev of None \<Rightarrow> devs | Some a \<Rightarrow> list_del a devs)"

text \<open>
  \<open>pm_send\<close> returns the status, the device structure as it leaves it, and the
  callback invocations it made (none or one). The call is made in process context
  (in an interrupt handler the function stops the kernel with \<open>BUG()\<close>).
\<close>

definition pm_send ::
  "pm_dev \<Rightarrow> pm_request \<Rightarrow> int \<Rightarrow> int \<times> pm_dev \<times> (pm_request \<times> int) list" where
  "pm_send dev rqst data =
     (if rqst = PM_SUSPEND \<or> rqst = PM_RESUME then
        (let prev_st = state dev; next_st = data in
         if prev_st \<noteq> next_st then
           (case callback dev of
              Some cb \<Rightarrow>
                (let status = cb rqst data in
                 if status = 0
                 then (status, dev\<lparr>state := next_st, prev_state := prev_st\<rparr>, [(rqst, data)])
                 else (status, dev, [(rqst, data)]))
            | None \<Rightarrow> (0, dev\<lparr>state := next_st, prev_state := prev_st\<rparr>, []))
         else (0, dev\<lparr>prev_state := prev_st\<rparr>, []))
      else
        (case callback dev of
           Some cb \<Rightarrow> (cb rqst data, dev, [(rqst, data)])
         | None \<Rightarrow> (0, dev, [])))"

definition tag_calls :: "addr \<Rightarrow> (pm_request \<times> int) list \<Rightarrow> pm_call list" where
  "tag_calls a calls = map (\<lambda>c. (a, c)) calls"

text \<open>
  \<open>pm_undo_all\<close> walks \<open>entry.prev\<close> from the failing device back to the list head.
  Its argument is that walk: the entries before the failing one, nearest first.
  The status of each compensating \<open>pm_send\<close> is dropped.
\<close>

fun pm_undo_all :: "registry \<Rightarrow> registry \<times> pm_call list" where
  "pm_undo_all [] = ([], [])"
| "pm_undo_all ((a, dev) # passed) =
     (if state dev \<noteq> prev_state dev then
        (let undo = (if prev_state dev \<noteq> 0 then PM_SUSPEND else PM_RESUME) in
         case pm_send dev undo (prev_state dev) of
           (status, dev', calls) \<Rightarrow>
             (case pm_undo_all passed of
                (passed', log) \<Rightarrow> ((a, dev') # passed', tag_calls a calls @ log)))
      else
        (case pm_undo_all passed of
           (passed', log) \<Rightarrow> ((a, dev) # passed', log)))"

text \<open>
  The loop of \<open>pm_send_all\<close>: \<open>passed\<close> holds the entries already passed, nearest
  first, \<open>log\<close> the callback invocations made so far.
\<close>

fun pm_send_all_loop ::
  "pm_request \<Rightarrow> int \<Rightarrow> registry \<Rightarrow> registry \<Rightarrow> pm_call list
     \<Rightarrow> int \<times> registry \<times> pm_call list" where
  "pm_send_all_loop rqst data passed [] log = (0, rev passed, log)"
| "pm_send_all_loop rqst data passed ((a, dev) # rest) log =
     (case callback dev of
        None \<Rightarrow> pm_send_all_loop rqst data ((a, dev) # passed) rest log
      | Some cb \<Rightarrow>
          (case pm_send dev rqst data of
             (status, dev', calls) \<Rightarrow>
               if status \<noteq> 0 then
                 (if rqst = PM_SUSPEND then
                    (case pm_undo_all passed of
                       (passed', ulog) \<Rightarrow>
                         (status, rev passed' @ (a, dev') # rest,
                          log @ tag_calls a calls @ ulog))
                  else (status, rev passed @ (a, dev') # rest, log @ tag_calls a calls))
               else pm_send_all_loop rqst data ((a, dev') # passed) rest
                      (log @ tag_calls a calls)))"

definition pm_send_all ::
  "pm_request \<Rightarrow> int \<Rightarrow> registry \<Rightarrow> int \<times> registry \<times> pm_call list" where
  "pm_send_all rqst data devs = pm_send_all_loop rqst data [] devs []"

text \<open>
  A registration history: each \<open>Register\<close> carries the address \<open>kmalloc\<close> hands out.
  \<open>kmalloc\<close> never returns the address of a structure that is still allocated, and
  \<open>pm_unregister\<close> must be given a handle that \<open>pm_register\<close> returned and that was
  not freed since; \<open>well_formed\<close> says so of a history.
\<close>

datatype pm_op = Register addr nat nat "pm_callback option" | Unregister addr

fun pm_apply :: "pm_op \<Rightarrow> registry \<Rightarrow> registry" where
  "pm_apply (Register a type ident cb) devs =
     snd (pm_register (Some a) type ident cb devs)"
| "pm_apply (Unregister a) devs = pm_unregister (Some a) devs"

fun pm_run :: "pm_op list \<Rightarrow> registry \<Rightarrow> registry" where
  "pm_run [] devs = devs"
| "pm_run (x # ops) devs = pm_run ops (pm_apply x devs)"

fun well_formed :: "pm_op list \<Rightarrow> registry \<Rightarrow> bool" where
  "well_formed [] devs = True"
| "well_formed (Register a type ident cb # ops) devs =
     (a \<notin> fst ` set devs \<and> well_formed ops (pm_apply (Register a type ident cb) devs))"
| "well_formed (Unregister a # ops) devs =
     (a \<in> fst ` set devs \<and> well_formed ops (pm_apply (Unregister a) devs))"

text \<open>
  The arrival order of a history: the handles in the order of their latest
  registration, and the handles still registered at its end.
\<close>

fun arrivals :: "pm_op list \<Rightarrow> addr list \<Rightarrow> addr list" where
  "arrivals [] seen = seen"
| "arrivals (Register a type ident cb # ops) seen =
     arrivals ops (filter (\<lambda>b. b \<noteq> a) seen @ [a])"
| "arrivals (Unregister a # ops) seen = arrivals ops seen"

fun registered :: "pm_op list \<Rightarrow> addr set \<Rightarrow> addr set" where
  "registered [] live = live"
| "registered (Register a type ident cb # ops) live = registered ops (insert a live)"
| "registered (Unregister a # ops) live = registered ops (live - {a})"

section \<open>The APM front end (arch/i386/kernel/apm.c)\<close>

text \<open>
  The event codes, in the order of the table \<open>apm_event_name\<close>; a code outside
  the table is \<open>APM_OTHER_EVENT\<close>. The power states are those of
  \<open>apm_set_power_state\<close>.
\<close>

datatype apm_event =
    APM_SYS_STANDBY | APM_SYS_SUSPEND | APM_NORMAL_RESUME | APM_CRITICAL_RESUME
  | APM_LOW_BATTERY | APM_POWER_STATUS_CHANGE | APM_UPDATE_TIME | APM_CRITICAL_SUSPEND
  | APM_USER_STANDBY | APM_USER_SUSPEND | APM_STANDBY_RESUME | APM_CAPABILITY_CHANGE
  | APM_OTHER_EVENT nat

datatype apm_power_state =
    APM_STATE_READY | APM_STATE_STANDBY | APM_STATE_SUSPEND | APM_STATE_OFF
  | APM_STATE_BUSY | APM_STATE_REJECT

definition APM_MAX_EVENTS :: nat where
  "APM_MAX_EVENTS = 20"

definition APM_BIOS_MAGIC :: int where
  "APM_BIOS_MAGIC = 0x4101"

definition APM_SUCCESS :: int where
  "APM_SUCCESS = 0"

definition APM_NO_ERROR :: int where
  "APM_NO_ERROR = 0x53"

definition EPERM :: int where "EPERM = 1"
definition EIO :: int where "EIO = 5"
definition EAGAIN :: int where "EAGAIN = 11"
definition ENOMEM :: int where "ENOMEM = 12"
definition EFAULT :: int where "EFAULT = 14"
definition EBUSY :: int where "EBUSY = 16"
definition EINVAL :: int where "EINVAL = 22"
definition ERESTARTSYS :: int where "ERESTARTSYS = 512"

text \<open>
  \<open>struct apm_user\<close>. The one-bit fields are flags; \<open>events\<close> is the array of
  \<open>APM_MAX_EVENTS\<close> slots. The \<open>next\<close> pointer is the order of \<open>user_list\<close> below.
\<close>

record apm_user =
  magic :: int
  suser :: bool
  writer :: bool
  reader :: bool
  suspend_wait :: bool
  suspend_result :: int
  suspends_pending :: int
  standbys_pending :: int
  suspends_read :: int
  standbys_read :: int
  event_head :: nat
  event_tail :: nat
  events :: "apm_event list"

text \<open>
  What the driver does to its collaborators, in order: a call of \<open>pm_send_all\<close>,
  a driver callback made by it, a BIOS power-state call, and the two clock routines.
\<close>

datatype effect =
    Pm_send_all_called pm_request int
  | Pm_callback addr pm_request int
  | Bios_set_power_state apm_power_state
  | Get_time_diff
  | Set_time

text \<open>
  The file's static variables, with the device registry of pm.c, the tick counter
  \<open>jiffies\<close> (an \<open>unsigned long\<close>, 32 bits on i386), the connection version of
  \<open>apm_info\<close>, the build option \<open>CONFIG_APM_IGNORE_USER_SUSPEND\<close>, the status the
  BIOS answers a power-state call with, and the effects so far. The global counters
  carry the prefix \<open>glob\<close> to tell them from the fields of \<open>apm_user\<close>.
\<close>

record apm_state =
  pm_devs :: registry
  user_list :: "(addr \<times> apm_user) list"
  glob_suspends_pending :: int
  glob_standbys_pending :: int
  waiting_for_resume :: bool
  ignore_normal_resume :: bool
  bounce_interval :: int
  last_resume :: "32 word"
  ignore_bounce :: bool
  notified :: nat
  jiffies :: "32 word"
  connection_version :: nat
  ignore_user_suspend :: bool
  bios_answer :: "apm_power_state \<Rightarrow> int"
  effects :: "effect list"

definition queue_empty :: "apm_user \<Rightarrow> bool" where
  "queue_empty as = (event_head as = event_tail as)"

definition get_queued_event :: "apm_user \<Rightarrow> apm_event \<times> apm_user" where
  "get_queued_event as =
     (let as1 = as\<lparr>event_tail := (event_tail as + 1) mod APM_MAX_EVENTS\<rparr>
      in (events as1 ! event_tail as1, as1))"

text \<open>
  The queue part of the loop body of \<open>queue_event\<close>: advance the head, on meeting
  the tail advance the tail too, store the event at the head.
\<close>

definition overflows :: "apm_user \<Rightarrow> bool" where
  "overflows as = ((event_head as + 1) mod APM_MAX_EVENTS = event_tail as)"

definition enqueue :: "apm_event \<Rightarrow> apm_user \<Rightarrow> apm_user" where
  "enqueue event as =
     (let as1 = as\<lparr>event_head := (event_head as + 1) mod APM_MAX_EVENTS\<rparr>;
          as2 = (if event_head as1 = event_tail as1
                 then as1\<lparr>event_tail := (event_tail as1 + 1) mod APM_MAX_EVENTS\<rparr>
                 else as1)
      in as2\<lparr>events := (events as2)[event_head as2 := event]\<rparr>)"

definition queue_event_body :: "apm_event \<Rightarrow> apm_user \<Rightarrow> apm_state \<Rightarrow> apm_user \<times> apm_state" where
  "queue_event_body event as s =
     (let s1 = (if overflows as then s\<lparr>notified := notified s + 1\<rparr> else s);
          as1 = enqueue event as
      in if \<not> suser as1 \<or> \<not> writer as1 then (as1, s1)
         else
           (case event of
              APM_SYS_SUSPEND \<Rightarrow>
                (as1\<lparr>suspends_pending := suspends_pending as1 + 1\<rparr>,
                 s1\<lparr>glob_suspends_pending := glob_suspends_pending s1 + 1\<rparr>)
            | APM_USER_SUSPEND \<Rightarrow>
                (as1\<lparr>suspends_pending := suspends_pending as1 + 1\<rparr>,
                 s1\<lparr>glob_suspends_pending := glob_suspends_pending s1 + 1\<rparr>)
            | APM_SYS_STANDBY \<Rightarrow>
                (as1\<lparr>standbys_pending := standbys_pending as1 + 1\<rparr>,
                 s1\<lparr>glob_standbys_pending := glob_standbys_pending s1 + 1\<rparr>)
            | APM_USER_STANDBY \<Rightarrow>
                (as1\<lparr>standbys_pending := standbys_pending as1 + 1\<rparr>,
                 s1\<lparr>glob_standbys_pending := glob_standbys_pending s1 + 1\<rparr>)
            | _ \<Rightarrow> (as1, s1)))"

fun queue_event_loop ::
  "apm_event \<Rightarrow> addr option \<Rightarrow> (addr \<times> apm_user) list \<Rightarrow> apm_state
     \<Rightarrow> (addr \<times> apm_user) list \<times> apm_state" where
  "queue_event_loop event sender [] s = ([], s)"
| "queue_event_loop event sender ((a, as) # rest) s =
     (if Some a = sender \<or> \<not> reader as then
        (case queue_event_loop event sender rest s of
           (rest', s') \<Rightarrow> ((a, as) # rest', s'))
      else
        (case queue_event_body event as s of
           (as', s1) \<Rightarrow>
             (case queue_event_loop event sender rest s1 of
                (rest', s') \<Rightarrow> ((a, as') # rest', s'))))"

definition queue_event :: "apm_event \<Rightarrow> addr option \<Rightarrow> apm_state \<Rightarrow> apm_state" where
  "queue_event event sender s =
     (if user_list s = [] then s
      else
        (case queue_event_loop event sender (user_list s) s of
           (users, s') \<Rightarrow> s'\<lparr>user_list := users\<rparr>))"

definition callback_effects :: "pm_call list \<Rightarrow> effect list" where
  "callback_effects calls = map (\<lambda>c. Pm_callback (fst c) (fst (snd c)) (snd (snd c))) calls"

text \<open>A call of \<open>pm_send_all\<close> from this file, on the registry above.\<close>

definition call_pm_send_all :: "pm_request \<Rightarrow> int \<Rightarrow> apm_state \<Rightarrow> int \<times> apm_state" where
  "call_pm_send_all rqst data s =
     (case pm_send_all rqst data (pm_devs s) of
        (status, devs, calls) \<Rightarrow>
          (status,
           s\<lparr>pm_devs := devs,
             effects := effects s @ Pm_send_all_called rqst data # callback_effects calls\<rparr>))"

definition apm_set_power_state :: "apm_power_state \<Rightarrow> apm_state \<Rightarrow> int \<times> apm_state" where
  "apm_set_power_state st s =
     (bios_answer s st, s\<lparr>effects := effects s @ [Bios_set_power_state st]\<rparr>)"

definition get_time_diff :: "apm_state \<Rightarrow> apm_state" where
  "get_time_diff s = s\<lparr>effects := effects s @ [Get_time_diff]\<rparr>"

definition set_time :: "apm_state \<Rightarrow> apm_state" where
  "set_time s = s\<lparr>effects := effects s @ [Set_time]\<rparr>"

text \<open>
  The statement that answers a request the driver turns down:
  \<open>if (apm_info.connection_version > 0x100) apm_set_power_state(APM_STATE_REJECT)\<close>.
\<close>

definition reject_request :: "apm_state \<Rightarrow> apm_state" where
  "reject_request s =
     (if connection_version s > 0x100 then snd (apm_set_power_state APM_STATE_REJECT s) else s)"

text \<open>The code of \<open>suspend\<close> from the label \<open>out\<close> on.\<close>

definition suspend_out :: "int \<Rightarrow> apm_state \<Rightarrow> int \<times> apm_state" where
  "suspend_out err s =
     (err,
      s\<lparr>user_list :=
          map (\<lambda>u. (fst u, (snd u)\<lparr>suspend_wait := False, suspend_result := err\<rparr>)) (user_list s),
        ignore_normal_resume := True\<rparr>)"

definition suspend :: "bool \<Rightarrow> apm_state \<Rightarrow> int \<times> apm_state" where
  "suspend vetoable s0 =
     (case call_pm_send_all PM_SUSPEND 3 s0 of
        (status, s1) \<Rightarrow>
          if status \<noteq> 0 \<and> vetoable then
            suspend_out (- EBUSY) ((reject_request s1)\<lparr>waiting_for_resume := False\<rparr>)
          else
            (case apm_set_power_state APM_STATE_SUSPEND (get_time_diff s1) of
               (err0, s2) \<Rightarrow>
                 (let s3 = set_time s2;
                      err1 = (if err0 = APM_NO_ERROR then APM_SUCCESS else err0);
                      err = (if err1 = APM_SUCCESS then 0 else - EIO);
                      s4 = snd (call_pm_send_all PM_RESUME 0 s3);
                      s5 = queue_event APM_NORMAL_RESUME None s4
                  in suspend_out err (s5\<lparr>ignore_normal_resume := True\<rparr>))))"

definition standby :: "apm_state \<Rightarrow> apm_state" where
  "standby s = snd (apm_set_power_state APM_STATE_STANDBY (get_time_diff s))"


text \<open>
  One turn of the loop of \<open>check_events\<close>, for the event \<open>get_event\<close> returned:
  the two flag statements at its top (\<open>bounce_prelude\<close>), then the \<open>switch\<close>.
  The first component is \<open>False\<close> where the function returns from inside the loop.
  The comparison \<open>(jiffies - last_resume) > bounce_interval\<close> is made on
  \<open>unsigned long\<close>, to which the \<open>int\<close> is converted.
\<close>

definition suspend_event :: "apm_event \<Rightarrow> apm_state \<Rightarrow> bool \<times> apm_state" where
  "suspend_event event s =
     (if ignore_bounce s then (True, reject_request s)
      else if waiting_for_resume s then (False, s)
      else
        (let q = queue_event event None (s\<lparr>waiting_for_resume := True\<rparr>)
         in (True, if glob_suspends_pending q \<le> 0 then snd (suspend True q) else q)))"

definition standby_event :: "apm_event \<Rightarrow> apm_state \<Rightarrow> bool \<times> apm_state" where
  "standby_event event s =
     (let q = queue_event event None s
      in (True, if glob_standbys_pending q \<le> 0 then standby q else q))"

definition resume_event :: "apm_event \<Rightarrow> apm_state \<Rightarrow> bool \<times> apm_state" where
  "resume_event event s =
     (let r = s\<lparr>waiting_for_resume := False, last_resume := jiffies s, ignore_bounce := True\<rparr>;
          r1 = (if event \<noteq> APM_NORMAL_RESUME \<or> \<not> ignore_normal_resume r
                then queue_event event None (snd (call_pm_send_all PM_RESUME 0 (set_time r)))
                else r)
      in (True, r1\<lparr>ignore_normal_resume := False\<rparr>))"

definition bounce_prelude :: "apm_event \<Rightarrow> apm_state \<Rightarrow> apm_state" where
  "bounce_prelude event s0 =
     (let s1 = (if ignore_bounce s0
                   \<and> jiffies s0 - last_resume s0 > word_of_int (bounce_interval s0)
                then s0\<lparr>ignore_bounce := False\<rparr> else s0)
      in if ignore_normal_resume s1 \<and> event \<noteq> APM_NORMAL_RESUME
         then s1\<lparr>ignore_normal_resume := False\<rparr> else s1)"

definition check_event :: "apm_event \<Rightarrow> apm_state \<Rightarrow> bool \<times> apm_state" where
  "check_event event s0 =
     (let s = bounce_prelude event s0
      in case event of
           APM_SYS_STANDBY \<Rightarrow> standby_event event s
         | APM_USER_STANDBY \<Rightarrow> standby_event event s
         | APM_USER_SUSPEND \<Rightarrow>
             if ignore_user_suspend s then (True, reject_request s) else suspend_event event s
         | APM_SYS_SUSPEND \<Rightarrow> suspend_event event s
         | APM_NORMAL_RESUME \<Rightarrow> resume_event event s
         | APM_CRITICAL_RESUME \<Rightarrow> resume_event event s
         | APM_STANDBY_RESUME \<Rightarrow> resume_event event s
         | APM_CAPABILITY_CHANGE \<Rightarrow> (True, queue_event event None s)
         | APM_LOW_BATTERY \<Rightarrow> (True, queue_event event None s)
         | APM_POWER_STATUS_CHANGE \<Rightarrow> (True, queue_event event None s)
         | APM_UPDATE_TIME \<Rightarrow> (True, set_time s)
         | APM_CRITICAL_SUSPEND \<Rightarrow> (True, snd (suspend False s))
         | APM_OTHER_EVENT n \<Rightarrow> (True, s))"

text \<open>
  \<open>check_events\<close>: the first argument is what the BIOS has to report, in the order
  \<open>get_event\<close> will return it (an empty list: \<open>get_event\<close> returns 0). The events
  not fetched are returned with the state.
\<close>

fun check_events :: "apm_event list \<Rightarrow> apm_state \<Rightarrow> apm_event list \<times> apm_state" where
  "check_events [] s = ([], s)"
| "check_events (event # pending) s =
     (case check_event event s of
        (continue, s') \<Rightarrow> if continue then check_events pending s' else (pending, s'))"

text \<open>
  The file operations. A file's \<open>private_data\<close> is the address of its
  \<open>apm_user\<close>, or \<open>NULL\<close>. \<open>check_apm_user\<close> gives the structure where the C
  function returns 0, and \<open>None\<close> where it reports a bad file pointer (an address
  that is not in \<open>user_list\<close> is treated as such).
\<close>

definition check_apm_user :: "addr option \<Rightarrow> apm_state \<Rightarrow> apm_user option" where
  "check_apm_user fp s =
     (case fp of
        None \<Rightarrow> None
      | Some a \<Rightarrow>
          (case map_of (user_list s) a of
             None \<Rightarrow> None
           | Some as \<Rightarrow> if magic as \<noteq> APM_BIOS_MAGIC then None else Some as))"

definition update_user :: "addr \<Rightarrow> (apm_user \<Rightarrow> apm_user) \<Rightarrow> apm_state \<Rightarrow> apm_state" where
  "update_user a f s =
     s\<lparr>user_list := map (\<lambda>u. if fst u = a then (fst u, f (snd u)) else u) (user_list s)\<rparr>"

text \<open>
  A system call returns a value, or does not return yet: the caller sleeps on a wait
  queue (\<open>Blocked\<close>).
\<close>

datatype ret = Ret int | Blocked

text \<open>
  \<open>do_open\<close>: the first argument is what \<open>kmalloc\<close> returns, an address with the
  uninitialised contents of the block; then \<open>capable(CAP_SYS_ADMIN)\<close> and the write
  and read bits of \<open>f_mode\<close>.
\<close>

definition do_open ::
  "(addr \<times> apm_user) option \<Rightarrow> bool \<Rightarrow> bool \<Rightarrow> bool \<Rightarrow> apm_state \<Rightarrow> ret \<times> apm_state" where
  "do_open kmalloc capable fmode_write fmode_read s =
     (case kmalloc of
        None \<Rightarrow> (Ret (- ENOMEM), s)
      | Some (a, raw) \<Rightarrow>
          (Ret 0,
           s\<lparr>user_list :=
               (a, raw\<lparr>magic := APM_BIOS_MAGIC, event_tail := 0, event_head := 0,
                       suspends_pending := 0, standbys_pending := 0,
                       suspends_read := 0, standbys_read := 0,
                       suser := capable, writer := fmode_write, reader := fmode_read\<rparr>)
               # user_list s\<rparr>))"

text \<open>Unlinking \<open>as\<close> from the singly linked \<open>user_list\<close>: the first entry at its address.\<close>

fun unlink :: "addr \<Rightarrow> (addr \<times> apm_user) list \<Rightarrow> (addr \<times> apm_user) list" where
  "unlink a [] = []"
| "unlink a (u # users) = (if fst u = a then users else u # unlink a users)"

text \<open>
  The two statements of \<open>do_release\<close> that give the pending counts of the leaving
  client back, each running the transition it was the last to hold up.
\<close>

definition release_standbys :: "apm_user \<Rightarrow> apm_state \<Rightarrow> apm_state" where
  "release_standbys as s =
     (if standbys_pending as > 0 then
        (let t = s\<lparr>glob_standbys_pending := glob_standbys_pending s - standbys_pending as\<rparr>
         in if glob_standbys_pending t \<le> 0 then standby t else t)
      else s)"

definition release_suspends :: "apm_user \<Rightarrow> apm_state \<Rightarrow> apm_state" where
  "release_suspends as s =
     (if suspends_pending as > 0 then
        (let t = s\<lparr>glob_suspends_pending := glob_suspends_pending s - suspends_pending as\<rparr>
         in if glob_suspends_pending t \<le> 0 then snd (suspend True t) else t)
      else s)"

definition do_release :: "addr option \<Rightarrow> apm_state \<Rightarrow> int \<times> apm_state" where
  "do_release fp s =
     (case check_apm_user fp s of
        None \<Rightarrow> (0, s)
      | Some as \<Rightarrow>
          (let s2 = release_suspends as (release_standbys as s)
           in (0, s2\<lparr>user_list := unlink (the fp) (user_list s2)\<rparr>)))"

text \<open>
  The copy loop of \<open>do_read\<close>. \<open>slots\<close> is the number of whole events that still
  fit the buffer (\<open>i / sizeof(event)\<close>), \<open>ok\<close> the number of events
  \<open>copy_to_user\<close> will still accept before it faults, \<open>out\<close> what reached the
  buffer. The flag is \<open>False\<close> where the loop is left on a fault.
\<close>

fun do_read_loop ::
  "nat \<Rightarrow> nat \<Rightarrow> apm_user \<Rightarrow> apm_event list \<Rightarrow> bool \<times> apm_user \<times> apm_event list" where
  "do_read_loop 0 ok as out = (True, as, out)"
| "do_read_loop (Suc slots) ok as out =
     (if queue_empty as then (True, as, out)
      else
        (case get_queued_event as of
           (event, as1) \<Rightarrow>
             (case ok of
                0 \<Rightarrow> (False, as1, out)
              | Suc ok' \<Rightarrow>
                  do_read_loop slots ok'
                    (case event of
                       APM_SYS_SUSPEND \<Rightarrow> as1\<lparr>suspends_read := suspends_read as1 + 1\<rparr>
                     | APM_USER_SUSPEND \<Rightarrow> as1\<lparr>suspends_read := suspends_read as1 + 1\<rparr>
                     | APM_SYS_STANDBY \<Rightarrow> as1\<lparr>standbys_read := standbys_read as1 + 1\<rparr>
                     | APM_USER_STANDBY \<Rightarrow> as1\<lparr>standbys_read := standbys_read as1 + 1\<rparr>
                     | _ \<Rightarrow> as1)
                    (out @ [event]))))"

text \<open>
  \<open>do_read\<close>: \<open>count\<close> in bytes (an event is two bytes), the \<open>O_NONBLOCK\<close> flag,
  whether a signal is pending, and \<open>ok\<close> as above. On an empty queue without
  \<open>O_NONBLOCK\<close> the caller sleeps until an event arrives or a signal wakes it.
\<close>

definition do_read ::
  "addr option \<Rightarrow> nat \<Rightarrow> bool \<Rightarrow> bool \<Rightarrow> nat \<Rightarrow> apm_state
     \<Rightarrow> (ret \<times> apm_event list) \<times> apm_state" where
  "do_read fp count nonblock signal_pending ok s =
     (case check_apm_user fp s of
        None \<Rightarrow> ((Ret (- EIO), []), s)
      | Some as \<Rightarrow>
          if count < 2 then ((Ret (- EINVAL), []), s)
          else if queue_empty as \<and> nonblock then ((Ret (- EAGAIN), []), s)
          else if queue_empty as \<and> \<not> signal_pending then ((Blocked, []), s)
          else
            (case do_read_loop (count div 2) ok as [] of
               (finished, as', out) \<Rightarrow>
                 (let s' = update_user (the fp) (\<lambda>u. as') s in
                  if out \<noteq> [] then ((Ret (2 * int (length out)), out), s')
                  else if \<not> finished then ((Ret (- EFAULT), []), s')
                  else if signal_pending then ((Ret (- ERESTARTSYS), []), s')
                  else ((Ret 0, []), s'))))"

datatype ioctl_cmd = APM_IOC_STANDBY | APM_IOC_SUSPEND | APM_IOC_OTHER nat

text \<open>
  The first statement of each case of \<open>do_ioctl\<close>: the client acknowledges an
  event it has read, or else files a request of its own with \<open>queue_event\<close>.
\<close>

definition ack_standby :: "addr option \<Rightarrow> apm_user \<Rightarrow> apm_state \<Rightarrow> apm_state" where
  "ack_standby fp as s =
     (if standbys_read as > 0 then
        (update_user (the fp)
           (\<lambda>u. u\<lparr>standbys_read := standbys_read u - 1,
                  standbys_pending := standbys_pending u - 1\<rparr>) s)
          \<lparr>glob_standbys_pending := glob_standbys_pending s - 1\<rparr>
      else queue_event APM_USER_STANDBY fp s)"

definition ack_suspend :: "addr option \<Rightarrow> apm_user \<Rightarrow> apm_state \<Rightarrow> apm_state" where
  "ack_suspend fp as s =
     (if suspends_read as > 0 then
        (update_user (the fp)
           (\<lambda>u. u\<lparr>suspends_read := suspends_read u - 1,
                  suspends_pending := suspends_pending u - 1\<rparr>) s)
          \<lparr>glob_suspends_pending := glob_suspends_pending s - 1\<rparr>
      else queue_event APM_USER_SUSPEND fp s)"

definition do_ioctl :: "addr option \<Rightarrow> ioctl_cmd \<Rightarrow> apm_state \<Rightarrow> ret \<times> apm_state" where
  "do_ioctl fp cmd s =
     (case check_apm_user fp s of
        None \<Rightarrow> (Ret (- EIO), s)
      | Some as \<Rightarrow>
          if \<not> suser as \<or> \<not> writer as then (Ret (- EPERM), s)
          else
            (case cmd of
               APM_IOC_STANDBY \<Rightarrow>
                 (let s1 = ack_standby fp as s
                  in (Ret 0, if glob_standbys_pending s1 \<le> 0 then standby s1 else s1))
             | APM_IOC_SUSPEND \<Rightarrow>
                 (let s1 = ack_suspend fp as s
                  in if glob_suspends_pending s1 \<le> 0 then
                       (case suspend True s1 of (err, s2) \<Rightarrow> (Ret err, s2))
                     else
                       (Blocked, update_user (the fp) (\<lambda>u. u\<lparr>suspend_wait := True\<rparr>) s1))
             | APM_IOC_OTHER n \<Rightarrow> (Ret (- EINVAL), s)))"

text \<open>
  A history of the driver: the file operations, a run of \<open>check_events\<close>, a direct
  \<open>queue_event\<close>, device registration, and the passing of ticks.
\<close>

datatype apm_op =
    Open "(addr \<times> apm_user) option" bool bool bool
  | Release "addr option"
  | Read "addr option" nat bool bool nat
  | Ioctl "addr option" ioctl_cmd
  | Check_events "apm_event list"
  | Queue_event apm_event "addr option"
  | Device pm_op
  | Tick "32 word"

fun apm_apply :: "apm_op \<Rightarrow> apm_state \<Rightarrow> apm_state" where
  "apm_apply (Open kmalloc capable fw fr) s = snd (do_open kmalloc capable fw fr s)"
| "apm_apply (Release fp) s = snd (do_release fp s)"
| "apm_apply (Read fp count nonblock sig ok) s = snd (do_read fp count nonblock sig ok s)"
| "apm_apply (Ioctl fp cmd) s = snd (do_ioctl fp cmd s)"
| "apm_apply (Check_events pending) s = snd (check_events pending s)"
| "apm_apply (Queue_event event sender) s = queue_event event sender s"
| "apm_apply (Device x) s = s\<lparr>pm_devs := pm_apply x (pm_devs s)\<rparr>"
| "apm_apply (Tick n) s = s\<lparr>jiffies := jiffies s + n\<rparr>"

fun apm_run :: "apm_op list \<Rightarrow> apm_state \<Rightarrow> apm_state" where
  "apm_run [] s = s"
| "apm_run (x # ops) s = apm_run ops (apm_apply x s)"

text \<open>
  \<open>kmalloc\<close> hands out a block that is not in use, and the block holds the whole
  array \<open>events\<close>; \<open>apm_valid\<close> says so of every \<open>Open\<close> of a history.
\<close>

fun apm_valid :: "apm_op list \<Rightarrow> apm_state \<Rightarrow> bool" where
  "apm_valid [] s = True"
| "apm_valid (Open (Some (a, raw)) capable fw fr # ops) s =
     (a \<notin> fst ` set (user_list s) \<and> length (events raw) = APM_MAX_EVENTS
      \<and> apm_valid ops (apm_apply (Open (Some (a, raw)) capable fw fr) s))"
| "apm_valid (x # ops) s = apm_valid ops (apm_apply x s)"

section \<open>Notions used in the statements about pm.c\<close>

text \<open>
  A device is \<open>willing\<close> to go to the state \<open>data\<close> when it is there already or
  its callback accepts the suspend request; it is \<open>moved\<close> by a broadcast when it
  has a callback and was not in the target state. The request \<open>pm_undo_all\<close>
  sends to a device that was in state \<open>state dev\<close> before the broadcast is its
  \<open>inverse_request\<close>.
\<close>

definition willing :: "int \<Rightarrow> addr \<times> pm_dev \<Rightarrow> bool" where
  "willing data x =
     (\<forall>c. callback (snd x) = Some c \<longrightarrow> state (snd x) = data \<or> c PM_SUSPEND data = 0)"

definition moved :: "int \<Rightarrow> addr \<times> pm_dev \<Rightarrow> bool" where
  "moved data x = (callback (snd x) \<noteq> None \<and> state (snd x) \<noteq> data)"




definition sent :: "pm_request \<Rightarrow> int \<Rightarrow> addr \<times> pm_dev \<Rightarrow> addr \<times> pm_dev" where
  "sent rqst data x =
     (fst x, if callback (snd x) = None then snd x else fst (snd (pm_send (snd x) rqst data)))"

definition sent_calls :: "pm_request \<Rightarrow> int \<Rightarrow> addr \<times> pm_dev \<Rightarrow> pm_call list" where
  "sent_calls rqst data x =
     (if callback (snd x) = None then []
      else tag_calls (fst x) (snd (snd (pm_send (snd x) rqst data))))"

definition accepts :: "pm_request \<Rightarrow> int \<Rightarrow> addr \<times> pm_dev \<Rightarrow> bool" where
  "accepts rqst data x = (callback (snd x) = None \<or> fst (pm_send (snd x) rqst data) = 0)"

text \<open>
  Three driver callbacks and a freshly registered device, for the examples: one
  accepts everything, one vetoes every suspend with \<open>-EBUSY\<close>, one accepts a
  suspend and then fails every resume with \<open>-EIO\<close>.
\<close>

definition ok_callback :: pm_callback where
  "ok_callback rqst data = 0"

definition veto_callback :: pm_callback where
  "veto_callback rqst data = (if rqst = PM_SUSPEND then - 16 else 0)"


definition fresh_dev :: "pm_callback option \<Rightarrow> pm_dev" where
  "fresh_dev cb = \<lparr>dev_type = 0, dev_id = 0, callback = cb, state = 0, prev_state = 0\<rparr>"


definition two_registrations :: "pm_op list" where
  "two_registrations =
     [Register 1 0 0 (Some ok_callback), Register 2 0 0 (Some ok_callback)]"

section \<open>Notions used in the statements about apm.c\<close>

text \<open>
  The unread events of a client, oldest first: the slots from \<open>event_tail + 1\<close> to
  \<open>event_head\<close>, cyclically, which is the order in which \<open>get_queued_event\<close>
  returns them. A queue is well formed when the array has its \<open>APM_MAX_EVENTS\<close>
  slots and both indices are inside it.
\<close>

definition queued :: "apm_user \<Rightarrow> apm_event list" where
  "queued as =
     map (\<lambda>k. events as ! ((event_tail as + 1 + k) mod APM_MAX_EVENTS))
       [0..<(event_head as + APM_MAX_EVENTS - event_tail as) mod APM_MAX_EVENTS]"

definition queue_ok :: "apm_user \<Rightarrow> bool" where
  "queue_ok as =
     (length (events as) = APM_MAX_EVENTS \<and> event_head as < APM_MAX_EVENTS
      \<and> event_tail as < APM_MAX_EVENTS)"


definition is_suspend_event :: "apm_event \<Rightarrow> bool" where
  "is_suspend_event e = (e = APM_SYS_SUSPEND \<or> e = APM_USER_SUSPEND)"

definition is_standby_event :: "apm_event \<Rightarrow> bool" where
  "is_standby_event e = (e = APM_SYS_STANDBY \<or> e = APM_USER_STANDBY)"

text \<open>
  The counter conservation of the driver, and what the driver keeps true of every
  connected client besides: the magic number, a well-formed queue, and a pending
  count that covers the suspend (standby) events read and not yet acknowledged plus
  those still unread, for a privileged writer, and is zero for everyone else.
\<close>

definition conserved :: "apm_state \<Rightarrow> bool" where
  "conserved s =
     (glob_suspends_pending s = sum_list (map (\<lambda>u. suspends_pending (snd u)) (user_list s))
      \<and> glob_standbys_pending s = sum_list (map (\<lambda>u. standbys_pending (snd u)) (user_list s)))"

definition user_ok :: "apm_user \<Rightarrow> bool" where
  "user_ok as =
     (magic as = APM_BIOS_MAGIC \<and> queue_ok as
      \<and> 0 \<le> suspends_read as \<and> 0 \<le> standbys_read as
      \<and> (if suser as \<and> writer as
          then suspends_read as + int (length (filter is_suspend_event (queued as)))
                 \<le> suspends_pending as
             \<and> standbys_read as + int (length (filter is_standby_event (queued as)))
                 \<le> standbys_pending as
          else suspends_pending as = 0 \<and> standbys_pending as = 0))"

definition users_ok :: "apm_state \<Rightarrow> bool" where
  "users_ok s =
     (distinct (map fst (user_list s)) \<and> list_all (\<lambda>u. user_ok (snd u)) (user_list s))"

definition apm_inv :: "apm_state \<Rightarrow> bool" where
  "apm_inv s = (conserved s \<and> users_ok s)"

text \<open>The pending counts of a state: the two global ones and those of each client.\<close>

definition pendings :: "apm_state \<Rightarrow> int \<times> int \<times> (addr \<times> int \<times> int) list" where
  "pendings s =
     (glob_suspends_pending s, glob_standbys_pending s,
      map (\<lambda>u. (fst u, suspends_pending (snd u), standbys_pending (snd u))) (user_list s))"

text \<open>
  The driver after \<open>apm_init\<close>, before any client connects, over a given device
  registry: no users, no pending counts, the default bounce interval of three
  seconds at 100 ticks a second, a BIOS that speaks APM 1.2 and answers every
  power-state call with success. The block \<open>kmalloc\<close> returns, for the examples.
\<close>

definition boot_state :: "registry \<Rightarrow> apm_state" where
  "boot_state devs =
     \<lparr>pm_devs = devs, user_list = [], glob_suspends_pending = 0, glob_standbys_pending = 0,
      waiting_for_resume = False, ignore_normal_resume = False, bounce_interval = 300,
      last_resume = 0, ignore_bounce = False, notified = 0, jiffies = 0,
      connection_version = 0x102, ignore_user_suspend = False,
      bios_answer = (\<lambda>st. 0), effects = []\<rparr>"

definition raw_block :: apm_user where
  "raw_block =
     \<lparr>magic = 0, suser = False, writer = False, reader = False, suspend_wait = False,
      suspend_result = 0, suspends_pending = 7, standbys_pending = 7, suspends_read = 7,
      standbys_read = 7, event_head = 5, event_tail = 9,
      events = replicate 20 APM_UPDATE_TIME\<rparr>"

definition root_user :: apm_user where
  "root_user =
     raw_block\<lparr>magic := APM_BIOS_MAGIC, event_tail := 0, event_head := 0,
               suspends_pending := 0, standbys_pending := 0,
               suspends_read := 0, standbys_read := 0,
               suser := True, writer := True, reader := True\<rparr>"

text \<open>
  What \<open>queue_event\<close> does to the clients: a client \<open>receives\<close> the event when
  it is not the sender and was opened for reading, it is \<open>counted\<close> when it is
  moreover a privileged writer, and \<open>delivered\<close> is the client after the event
  reached it.
\<close>

definition receives :: "addr option \<Rightarrow> addr \<times> apm_user \<Rightarrow> bool" where
  "receives sender u = (Some (fst u) \<noteq> sender \<and> reader (snd u))"

definition counted :: "addr option \<Rightarrow> addr \<times> apm_user \<Rightarrow> bool" where
  "counted sender u = (receives sender u \<and> suser (snd u) \<and> writer (snd u))"

definition delivered :: "apm_event \<Rightarrow> apm_user \<Rightarrow> apm_user" where
  "delivered e as =
     (if suser as \<and> writer as \<and> is_suspend_event e
      then (enqueue e as)\<lparr>suspends_pending := suspends_pending as + 1\<rparr>
      else if suser as \<and> writer as \<and> is_standby_event e
      then (enqueue e as)\<lparr>standbys_pending := standbys_pending as + 1\<rparr>
      else enqueue e as)"

definition write_only_client :: apm_state where
  "write_only_client =
     snd (do_open (Some (1, raw_block)) True True False (boot_state []))"

definition two_clients :: apm_state where
  "two_clients =
     apm_run [Open (Some (1, raw_block)) True True True,
              Open (Some (2, raw_block)) True True False] (boot_state [])"

text \<open>
  A suspend attempt is \<open>vetoed\<close> when it is vetoable and the suspend broadcast over
  the registry returns a status other than zero.
\<close>

definition vetoed :: "bool \<Rightarrow> apm_state \<Rightarrow> bool" where
  "vetoed vetoable s = (fst (pm_send_all PM_SUSPEND 3 (pm_devs s)) \<noteq> 0 \<and> vetoable)"

definition standby_history :: "apm_op list" where
  "standby_history =
     [Open (Some (1, raw_block)) True True True, Check_events [APM_SYS_STANDBY]]"

text \<open>
  What a suspend attempt that is not vetoed does to its collaborators, after the
  effects so far: the suspend broadcast with the callbacks it makes, the BIOS
  suspend between the two clock routines, and the resume broadcast with its
  callbacks, over the registry as the suspend broadcast left it.
\<close>

definition suspend_broadcast :: "apm_state \<Rightarrow> effect list" where
  "suspend_broadcast s =
     Pm_send_all_called PM_SUSPEND 3
       # callback_effects (snd (snd (pm_send_all PM_SUSPEND 3 (pm_devs s))))"

definition resume_broadcast :: "apm_state \<Rightarrow> effect list" where
  "resume_broadcast s =
     Pm_send_all_called PM_RESUME 0
       # callback_effects
           (snd (snd (pm_send_all PM_RESUME 0
                        (fst (snd (pm_send_all PM_SUSPEND 3 (pm_devs s)))))))"


text \<open>Example states: one vetoing device; a device that fails its resume before a sound one.\<close>

definition veto_state :: apm_state where
  "veto_state = boot_state [(1, fresh_dev (Some veto_callback))]"









section \<open>The broadcast of pm.c: veto, rollback, order, idempotence\<close>


lemma loop_accepting_prefix:
  "list_all (accepts rqst data) pre \<Longrightarrow>
   pm_send_all_loop rqst data before (pre @ rest) log =
   pm_send_all_loop rqst data (rev (map (sent rqst data) pre) @ before) rest
      (log @ concat (map (sent_calls rqst data) pre))"
proof (induction pre arbitrary: before log)
  case Nil
  then show ?case by simp
next
  case (Cons x pre)
  obtain a dev where x: "x = (a, dev)" by (cases x)
  from Cons.prems have acc: "accepts rqst data (a, dev)" and rest: "list_all (accepts rqst data) pre"
    by (simp_all add: x)
  show ?case
  proof (cases "callback dev")
    case None
    then show ?thesis using Cons.IH [OF rest] by (simp add: x sent_def sent_calls_def)
  next
    case (Some cb)
    with acc have z: "fst (pm_send dev rqst data) = 0" by (simp add: accepts_def)
    then show ?thesis using Cons.IH [OF rest] Some
      by (simp add: x sent_def sent_calls_def case_prod_beta)
  qed
qed



lemma pm_send_all_accept_shape:
  assumes "list_all (accepts rqst data) devs"
  shows "pm_send_all rqst data devs =
     (0, map (sent rqst data) devs, concat (map (sent_calls rqst data) devs))"
  unfolding pm_send_all_def
  using loop_accepting_prefix [OF assms(1), of "[]" "[]" "[]"]
  by (simp add: rev_map)


lemma willing_accepts: "willing data x \<Longrightarrow> accepts PM_SUSPEND data x"
  by (cases "callback (snd x)") (auto simp: willing_def accepts_def pm_send_def Let_def)

lemma willing_sent_calls:
  "list_all (willing data) xs \<Longrightarrow>
   concat (map (sent_calls PM_SUSPEND data) xs) =
   map (\<lambda>x. (fst x, PM_SUSPEND, data)) (filter (moved data) xs)"
proof (induction xs)
  case Nil
  then show ?case by simp
next
  case (Cons x xs)
  then have w: "willing data x" by simp
  have "sent_calls PM_SUSPEND data x = (if moved data x then [(fst x, PM_SUSPEND, data)] else [])"
    using w
    by (cases "callback (snd x)")
       (auto simp: willing_def sent_calls_def moved_def pm_send_def Let_def tag_calls_def)
  with Cons show ?case by simp
qed










lemma pm_run_order:
  "well_formed ops devs \<Longrightarrow> map fst devs = rev (filter (\<lambda>a. a \<in> live) seen) \<Longrightarrow>
   live = fst ` set devs \<Longrightarrow>
   map fst (pm_run ops devs) = rev (filter (\<lambda>a. a \<in> registered ops live) (arrivals ops seen))"
proof (induction ops arbitrary: devs live seen)
  case Nil
  then show ?case by simp
next
  case (Cons x ops)
  show ?case
  proof (cases x)
    case (Register a type ident cb)
    let ?devs = "pm_apply x devs"
    from Cons.prems Register have fresh: "a \<notin> live" and wf: "well_formed ops ?devs"
      by simp_all
    have eq: "filter (\<lambda>b. b \<in> insert a live) (filter (\<lambda>b. b \<noteq> a) seen) = filter (\<lambda>b. b \<in> live) seen"
      using fresh by (induction seen) auto
    have m: "map fst ?devs = rev (filter (\<lambda>b. b \<in> insert a live) (filter (\<lambda>b. b \<noteq> a) seen @ [a]))"
      using Cons.prems(2) eq by (simp add: Register pm_register_def list_add_def)
    have l: "insert a live = fst ` set ?devs"
      using Cons.prems(3) by (simp add: Register pm_register_def list_add_def)
    from Cons.IH [OF wf m l] show ?thesis by (simp add: Register)
  next
    case (Unregister a)
    let ?devs = "pm_apply x devs"
    from Cons.prems Unregister have wf: "well_formed ops ?devs" by simp
    have "map fst ?devs = filter (\<lambda>b. b \<noteq> a) (map fst devs)"
      by (simp add: Unregister pm_unregister_def list_del_def filter_map comp_def)
    also have "\<dots> = rev (filter (\<lambda>b. b \<in> live - {a}) seen)"
      using Cons.prems(2) by (simp add: rev_filter [symmetric] conj_commute)
    finally have m: "map fst ?devs = rev (filter (\<lambda>b. b \<in> live - {a}) seen)" .
    have l: "live - {a} = fst ` set ?devs"
      using Cons.prems(3) by (auto simp: Unregister pm_unregister_def list_del_def)
    from Cons.IH [OF wf m l] show ?thesis by (simp add: Unregister)
  qed
qed

text \<open>
  C4 (amended). Registration puts the new device at the head of the registry, and
  after every well-formed history of registrations and unregistrations the order of
  the registry is the still-registered devices in the reverse of their registration
  order, the latest first. That is the order \<open>pm_send_all\<close> broadcasts in: when
  every device is willing, the callbacks it invokes are those of the devices it
  moves, in registry order.
\<close>

theorem pm_registry_order:
  "snd (pm_register (Some a) type ident cb devs)
     = (a, \<lparr>dev_type = type, dev_id = ident, callback = cb, state = 0, prev_state = 0\<rparr>) # devs
   \<and> (well_formed ops [] \<longrightarrow>
        map fst (pm_run ops [])
          = rev (filter (\<lambda>a. a \<in> registered ops {}) (arrivals ops [])))
   \<and> (list_all (willing data) reg \<longrightarrow>
        snd (snd (pm_send_all PM_SUSPEND data reg))
          = map (\<lambda>x. (fst x, PM_SUSPEND, data)) (filter (moved data) reg))"
proof (intro conjI impI)
  show "snd (pm_register (Some a) type ident cb devs)
     = (a, \<lparr>dev_type = type, dev_id = ident, callback = cb, state = 0, prev_state = 0\<rparr>) # devs"
    by (simp add: pm_register_def list_add_def)
next
  assume "well_formed ops []"
  then show "map fst (pm_run ops [])
          = rev (filter (\<lambda>a. a \<in> registered ops {}) (arrivals ops []))"
    using pm_run_order [of ops "[]" "{}" "[]"] by simp
next
  assume w: "list_all (willing data) reg"
  then have acc: "list_all (accepts PM_SUSPEND data) reg"
    by (simp add: list_all_iff willing_accepts)
  show "snd (snd (pm_send_all PM_SUSPEND data reg))
          = map (\<lambda>x. (fst x, PM_SUSPEND, data)) (filter (moved data) reg)"
    using willing_sent_calls [OF w] by (simp add: pm_send_all_accept_shape [OF acc])
qed

theorem pm_registry_order_witness:
  "well_formed two_registrations []
   \<and> map fst (pm_run two_registrations []) = [2, 1]
   \<and> rev (filter (\<lambda>a. a \<in> registered two_registrations {}) (arrivals two_registrations []))
       = [2, 1]
   \<and> list_all (willing 3) (pm_run two_registrations [])
   \<and> snd (snd (pm_send_all PM_SUSPEND 3 (pm_run two_registrations [])))
       = [(2, PM_SUSPEND, 3), (1, PM_SUSPEND, 3)]"
  using pm_registry_order [where a = 1 and type = 0 and ident = 0 and cb = None
      and devs = "[]" and ops = two_registrations and data = 3
      and reg = "pm_run two_registrations []"]
  by (simp add: two_registrations_def pm_register_def list_add_def willing_def moved_def
        ok_callback_def)

theorem pm_register_not_appended:
  "well_formed two_registrations []
   \<and> arrivals two_registrations [] = [1, 2]
   \<and> registered two_registrations {} = {1, 2}
   \<and> map fst (pm_run two_registrations []) = [2, 1]
   \<and> snd (snd (pm_send_all PM_SUSPEND 3 (pm_run two_registrations [])))
       = [(2, PM_SUSPEND, 3), (1, PM_SUSPEND, 3)]"
  by (simp add: two_registrations_def pm_register_def list_add_def pm_send_all_def
        pm_send_def ok_callback_def tag_calls_def Let_def insert_commute)

text \<open>
  C9 (amended). For a suspend or resume request, \<open>pm_send\<close> on a device that is
  in the target state records \<open>prev_state = state\<close> and returns 0 without calling
  the callback. So when the first of two calls in a row with the same target state
  returns 0, the second one calls nothing, returns 0 and leaves \<open>state\<close> as it
  is, and the two calls together make at most one callback invocation.
\<close>

theorem pm_send_twice:
  "(rqst = PM_SUSPEND \<or> rqst = PM_RESUME) \<longrightarrow>
     (state dev = data \<longrightarrow> pm_send dev rqst data = (0, dev\<lparr>prev_state := state dev\<rparr>, []))
   \<and> (fst (pm_send dev rqst data) = 0 \<longrightarrow>
        pm_send (fst (snd (pm_send dev rqst data))) rqst data
          = (0, (fst (snd (pm_send dev rqst data)))\<lparr>prev_state := data\<rparr>, [])
      \<and> state (fst (snd (pm_send dev rqst data))) = data
      \<and> length (snd (snd (pm_send dev rqst data))
           @ snd (snd (pm_send (fst (snd (pm_send dev rqst data))) rqst data))) \<le> 1)"
  by (cases "callback dev") (auto simp: pm_send_def Let_def)

theorem pm_send_twice_witness:
  "state (fresh_dev (Some ok_callback)) = 0
   \<and> pm_send (fresh_dev (Some ok_callback)) PM_RESUME 0
       = (0, (fresh_dev (Some ok_callback))\<lparr>prev_state := 0\<rparr>, [])
   \<and> pm_send (fresh_dev (Some ok_callback)) PM_SUSPEND 3
       = (0, (fresh_dev (Some ok_callback))\<lparr>state := 3\<rparr>, [(PM_SUSPEND, 3)])
   \<and> pm_send (fst (snd (pm_send (fresh_dev (Some ok_callback)) PM_SUSPEND 3))) PM_SUSPEND 3
       = (0, (fresh_dev (Some ok_callback))\<lparr>state := 3, prev_state := 3\<rparr>, [])"
  using pm_send_twice [of PM_RESUME "fresh_dev (Some ok_callback)" 0]
    pm_send_twice [of PM_SUSPEND "fresh_dev (Some ok_callback)" 3]
  by (simp add: fresh_dev_def ok_callback_def pm_send_def)

theorem pm_send_twice_invokes_twice:
  "fst (pm_send (fresh_dev (Some veto_callback)) PM_SUSPEND 3) = - 16
   \<and> fst (snd (pm_send (fresh_dev (Some veto_callback)) PM_SUSPEND 3))
       = fresh_dev (Some veto_callback)
   \<and> pm_send (fst (snd (pm_send (fresh_dev (Some veto_callback)) PM_SUSPEND 3))) PM_SUSPEND 3
       = (- 16, fresh_dev (Some veto_callback), [(PM_SUSPEND, 3)])
   \<and> length (snd (snd (pm_send (fresh_dev (Some veto_callback)) PM_SUSPEND 3))
        @ snd (snd (pm_send (fst (snd (pm_send (fresh_dev (Some veto_callback)) PM_SUSPEND 3)))
                     PM_SUSPEND 3))) = 2
   \<and> pm_send (fresh_dev (Some ok_callback)) (PM_OTHER 2) 0
       = (0, fresh_dev (Some ok_callback), [(PM_OTHER 2, 0)])"
  by (simp add: fresh_dev_def veto_callback_def ok_callback_def pm_send_def)

section \<open>The event queue\<close>

lemma mod20: "x < 40 \<Longrightarrow> x mod 20 = (if x < 20 then x else x - (20::nat))"
  by (simp add: mod_if)

lemma ring_len:
  "h < 20 \<Longrightarrow> t < 20 \<Longrightarrow> (h + 20 - t) mod 20 = (if t \<le> h then h - t else h + 20 - (t::nat))"
  by (simp add: mod20)

lemma queue_ok_enqueue: "queue_ok as \<Longrightarrow> queue_ok (enqueue e as)"
  by (simp add: queue_ok_def enqueue_def Let_def APM_MAX_EVENTS_def)

lemma length_queued:
  "length (queued as) = (event_head as + APM_MAX_EVENTS - event_tail as) mod APM_MAX_EVENTS"
  by (simp add: queued_def)

lemma length_queued_le: "length (queued as) \<le> 19"
proof -
  have "length (queued as) < 20" by (simp add: queued_def APM_MAX_EVENTS_def)
  then show ?thesis by simp
qed

lemma overflows_iff: "queue_ok as \<Longrightarrow> overflows as \<longleftrightarrow> length (queued as) = 19"
  unfolding queue_ok_def overflows_def length_queued APM_MAX_EVENTS_def
  by (auto simp: mod20 ring_len split: if_splits)

lemma queue_empty_iff: "queue_ok as \<Longrightarrow> queue_empty as \<longleftrightarrow> queued as = []"
  unfolding queue_ok_def queue_empty_def length_0_conv [symmetric] length_queued APM_MAX_EVENTS_def
  by (auto simp: mod20 ring_len split: if_splits)

lemma length_queued_enqueue:
  "queue_ok as \<Longrightarrow>
   length (queued (enqueue e as)) = (if overflows as then 19 else length (queued as) + 1)"
  unfolding length_queued queue_ok_def overflows_def APM_MAX_EVENTS_def
  by (auto simp: enqueue_def Let_def APM_MAX_EVENTS_def mod20 ring_len split: if_splits)

lemma nth_queued:
  "i < length (queued as) \<Longrightarrow>
   queued as ! i = events as ! ((event_tail as + 1 + i) mod APM_MAX_EVENTS)"
  by (simp add: queued_def)

lemma queued_enqueue_nth_old:
  assumes "queue_ok as" "\<not> overflows as" "i < length (queued as)"
  shows "queued (enqueue e as) ! i = queued as ! i"
proof -
  from assms(1) have h: "event_head as < 20" and t: "event_tail as < 20"
    and l: "length (events as) = 20"
    by (simp_all add: queue_ok_def APM_MAX_EVENTS_def)
  from assms(2) have o: "(event_head as + 1) mod 20 \<noteq> event_tail as"
    by (simp add: overflows_def APM_MAX_EVENTS_def)
  have i': "i < length (queued (enqueue e as))"
    using assms by (simp add: length_queued_enqueue)
  have i20: "i < (event_head as + 20 - event_tail as) mod 20"
    using assms(3) by (simp add: length_queued APM_MAX_EVENTS_def)
  have ne: "(event_tail as + 1 + i) mod 20 \<noteq> (event_head as + 1) mod 20"
    using h t i20 by (auto simp: mod20 ring_len split: if_splits)
  have "queued (enqueue e as) ! i =
      events (enqueue e as) ! ((event_tail (enqueue e as) + 1 + i) mod 20)"
    using nth_queued [OF i'] by (simp add: APM_MAX_EVENTS_def)
  also have "\<dots> = events as ! ((event_tail as + 1 + i) mod 20)"
    using o ne l by (simp add: enqueue_def Let_def APM_MAX_EVENTS_def)
  also have "\<dots> = queued as ! i"
    using nth_queued [OF assms(3)] by (simp add: APM_MAX_EVENTS_def)
  finally show ?thesis .
qed

lemma queued_enqueue_nth_shift:
  assumes "queue_ok as" "overflows as" "i < 18"
  shows "queued (enqueue e as) ! i = queued as ! (i + 1)"
proof -
  from assms(1) have h: "event_head as < 20" and t: "event_tail as < 20"
    and l: "length (events as) = 20"
    by (simp_all add: queue_ok_def APM_MAX_EVENTS_def)
  from assms(2) have o: "(event_head as + 1) mod 20 = event_tail as"
    by (simp add: overflows_def APM_MAX_EVENTS_def)
  have len: "length (queued as) = 19" using assms overflows_iff by simp
  have i': "i < length (queued (enqueue e as))"
    using assms by (simp add: length_queued_enqueue)
  have i1: "i + 1 < length (queued as)" using len assms(3) by simp
  have ne: "((event_tail as + 1) mod 20 + 1 + i) mod 20 \<noteq> event_tail as"
    using t assms(3) by (auto simp: mod20 split: if_splits)
  have idx: "((event_tail as + 1) mod 20 + 1 + i) mod 20 = (event_tail as + 1 + (i + 1)) mod 20"
    using t assms(3) by (auto simp: mod20 split: if_splits)
  have "queued (enqueue e as) ! i =
      events (enqueue e as) ! ((event_tail (enqueue e as) + 1 + i) mod 20)"
    using nth_queued [OF i'] by (simp add: APM_MAX_EVENTS_def)
  also have "\<dots> = events as ! (((event_tail as + 1) mod 20 + 1 + i) mod 20)"
    using o ne l by (simp add: enqueue_def Let_def APM_MAX_EVENTS_def)
  also have "\<dots> = queued as ! (i + 1)"
    using nth_queued [OF i1] idx by (simp add: APM_MAX_EVENTS_def)
  finally show ?thesis .
qed

lemma queued_enqueue_nth_last:
  assumes "queue_ok as"
  shows "queued (enqueue e as) ! (length (queued (enqueue e as)) - 1) = e"
proof -
  from assms(1) have h: "event_head as < 20" and t: "event_tail as < 20"
    and l: "length (events as) = 20"
    by (simp_all add: queue_ok_def APM_MAX_EVENTS_def)
  let ?as = "enqueue e as"
  have ok: "queue_ok ?as" using assms by (rule queue_ok_enqueue)
  then have h': "event_head ?as < 20" and t': "event_tail ?as < 20"
    and l': "length (events ?as) = 20"
    by (simp_all add: queue_ok_def APM_MAX_EVENTS_def)
  have pos: "0 < length (queued ?as)"
    using assms by (simp add: length_queued_enqueue)
  then have i': "length (queued ?as) - 1 < length (queued ?as)" by simp
  have idx: "(event_tail ?as + 1 + (length (queued ?as) - 1)) mod 20 = event_head ?as"
    using h' t' pos unfolding length_queued APM_MAX_EVENTS_def
    by (auto simp: mod20 ring_len split: if_splits)
  have "events ?as ! event_head ?as = e"
    using l h by (simp add: enqueue_def Let_def APM_MAX_EVENTS_def)
  then show ?thesis using nth_queued [OF i'] idx by (simp add: APM_MAX_EVENTS_def)
qed

lemma queued_enqueue:
  assumes "queue_ok as"
  shows "queued (enqueue e as) = (if overflows as then tl (queued as) else queued as) @ [e]"
proof (rule nth_equalityI)
  show "length (queued (enqueue e as)) =
        length ((if overflows as then tl (queued as) else queued as) @ [e])"
    using assms overflows_iff [OF assms] by (simp add: length_queued_enqueue)
next
  fix i assume i: "i < length (queued (enqueue e as))"
  show "queued (enqueue e as) ! i =
        ((if overflows as then tl (queued as) else queued as) @ [e]) ! i"
  proof (cases "overflows as")
    case True
    then have len: "length (queued as) = 19" using overflows_iff [OF assms] by simp
    from i True have i19: "i < 19" using assms by (simp add: length_queued_enqueue)
    show ?thesis
    proof (cases "i < 18")
      case less: True
      then show ?thesis
        using queued_enqueue_nth_shift [OF assms True less] len True
        by (simp add: nth_append nth_tl)
    next
      case False
      with i19 have "i = 18" by simp
      then show ?thesis
        using queued_enqueue_nth_last [OF assms, of e] len True assms
        by (simp add: nth_append length_queued_enqueue)
    qed
  next
    case False
    from i False have ile: "i < length (queued as) + 1"
      using assms by (simp add: length_queued_enqueue)
    show ?thesis
    proof (cases "i < length (queued as)")
      case less: True
      then show ?thesis
        using queued_enqueue_nth_old [OF assms False less] False
        by (simp add: nth_append)
    next
      case last: False
      with ile have "i = length (queued as)" by simp
      then show ?thesis
        using queued_enqueue_nth_last [OF assms, of e] False assms
        by (simp add: nth_append length_queued_enqueue)
    qed
  qed
qed

lemma get_queued_event_queued:
  assumes "queue_ok as" "\<not> queue_empty as"
  shows "fst (get_queued_event as) = hd (queued as)
       \<and> queued (snd (get_queued_event as)) = tl (queued as)
       \<and> queue_ok (snd (get_queued_event as))"
proof -
  from assms(1) have h: "event_head as < 20" and t: "event_tail as < 20"
    and l: "length (events as) = 20"
    by (simp_all add: queue_ok_def APM_MAX_EVENTS_def)
  from assms have ne: "queued as \<noteq> []" by (simp add: queue_empty_iff)
  then have pos: "0 < length (queued as)" by simp
  let ?as = "snd (get_queued_event as)"
  have ok: "queue_ok ?as"
    using assms(1) by (simp add: queue_ok_def get_queued_event_def Let_def APM_MAX_EVENTS_def)
  have ht: "event_head as \<noteq> event_tail as" using assms(2) by (simp add: queue_empty_def)
  have len: "length (queued ?as) = length (queued as) - 1"
    using h t ht unfolding length_queued APM_MAX_EVENTS_def
    by (auto simp: get_queued_event_def Let_def APM_MAX_EVENTS_def mod20 ring_len split: if_splits)
  have hd: "fst (get_queued_event as) = hd (queued as)"
    using nth_queued [OF pos] ne
    by (simp add: get_queued_event_def Let_def hd_conv_nth)
  have "queued ?as = tl (queued as)"
  proof (rule nth_equalityI)
    show "length (queued ?as) = length (tl (queued as))" using len by simp
  next
    fix i assume i: "i < length (queued ?as)"
    then have i1: "i + 1 < length (queued as)" using len by simp
    have idx: "((event_tail as + 1) mod 20 + 1 + i) mod 20 = (event_tail as + 1 + (i + 1)) mod 20"
      using t i1 length_queued_le [of as] by (auto simp: mod20 split: if_splits)
    have "queued ?as ! i = events as ! (((event_tail as + 1) mod 20 + 1 + i) mod 20)"
      using nth_queued [OF i]
      by (simp add: get_queued_event_def Let_def APM_MAX_EVENTS_def)
    also have "\<dots> = queued as ! (i + 1)"
      using nth_queued [OF i1] idx by (simp add: APM_MAX_EVENTS_def)
    finally show "queued ?as ! i = tl (queued as) ! i"
      using i1 by (simp add: nth_tl)
  qed
  with hd ok show ?thesis by simp
qed

text \<open>The loop body of \<open>queue_event\<close>, seen from the queue and from the overflow counter.\<close>

lemma queue_event_body_queue:
  "fst (queue_event_body e as s)
     \<lparr>suspends_pending := suspends_pending as, standbys_pending := standbys_pending as\<rparr>
   = enqueue e as"
  by (cases e) (simp_all add: queue_event_body_def enqueue_def Let_def)

lemma queued_counters [simp]:
  "queued (as\<lparr>suspends_pending := x\<rparr>) = queued as"
  "queued (as\<lparr>standbys_pending := y\<rparr>) = queued as"
  "queued (as\<lparr>suspends_read := z\<rparr>) = queued as"
  "queued (as\<lparr>standbys_read := w\<rparr>) = queued as"
  "queued (as\<lparr>suspend_wait := b\<rparr>) = queued as"
  "queued (as\<lparr>suspend_result := r\<rparr>) = queued as"
  by (simp_all add: queued_def)

lemma queue_ok_counters [simp]:
  "queue_ok (as\<lparr>suspends_pending := x\<rparr>) = queue_ok as"
  "queue_ok (as\<lparr>standbys_pending := y\<rparr>) = queue_ok as"
  "queue_ok (as\<lparr>suspends_read := z\<rparr>) = queue_ok as"
  "queue_ok (as\<lparr>standbys_read := w\<rparr>) = queue_ok as"
  "queue_ok (as\<lparr>suspend_wait := b\<rparr>) = queue_ok as"
  "queue_ok (as\<lparr>suspend_result := r\<rparr>) = queue_ok as"
  by (simp_all add: queue_ok_def)





lemma root_user_empty: "queue_ok root_user \<and> queue_empty root_user \<and> queued root_user = []"
  by (simp add: queue_ok_def queue_empty_def queued_def root_user_def raw_block_def
        APM_MAX_EVENTS_def)




section \<open>The fan-out of an event to the clients\<close>

lemma queue_event_body_fst: "fst (queue_event_body e as s) = delivered e as"
  by (cases e)
     (simp_all add: queue_event_body_def delivered_def enqueue_def Let_def
        is_suspend_event_def is_standby_event_def)

lemma queue_event_body_snd:
  "snd (queue_event_body e as s) =
     s\<lparr>notified := notified s + (if overflows as then 1 else 0),
       glob_suspends_pending := glob_suspends_pending s
          + (if suser as \<and> writer as \<and> is_suspend_event e then 1 else 0),
       glob_standbys_pending := glob_standbys_pending s
          + (if suser as \<and> writer as \<and> is_standby_event e then 1 else 0)\<rparr>"
  by (cases e)
     (simp_all add: queue_event_body_def enqueue_def Let_def
        is_suspend_event_def is_standby_event_def)

lemma counted_pair:
  "counted sender (a, as) = (receives sender (a, as) \<and> suser as \<and> writer as)"
  by (simp add: counted_def)

lemma loop_skip:
  "\<not> receives sender (a, as) \<Longrightarrow>
   queue_event_loop e sender ((a, as) # rest) s =
     ((a, as) # fst (queue_event_loop e sender rest s),
      snd (queue_event_loop e sender rest s))"
  by (auto simp: receives_def case_prod_beta)

lemma loop_take:
  "receives sender (a, as) \<Longrightarrow>
   queue_event_loop e sender ((a, as) # rest) s =
     ((a, delivered e as) # fst (queue_event_loop e sender rest (snd (queue_event_body e as s))),
      snd (queue_event_loop e sender rest (snd (queue_event_body e as s))))"
  using queue_event_body_fst [of e as s]
  by (auto simp: receives_def case_prod_beta)

lemma queue_event_loop_fst:
  "fst (queue_event_loop e sender us s) =
     map (\<lambda>u. if receives sender u then (fst u, delivered e (snd u)) else u) us"
proof (induction us arbitrary: s)
  case Nil
  then show ?case by simp
next
  case (Cons u us)
  obtain a as where u: "u = (a, as)" by (cases u)
  show ?case
  proof (cases "receives sender (a, as)")
    case True
    then show ?thesis
      using Cons.IH by (simp add: u loop_take del: queue_event_loop.simps)
  next
    case False
    then show ?thesis
      using Cons.IH by (simp add: u loop_skip del: queue_event_loop.simps)
  qed
qed

lemma queue_event_loop_snd:
  "snd (queue_event_loop e sender us s) =
     s\<lparr>notified := notified s
          + length (filter (\<lambda>u. receives sender u \<and> overflows (snd u)) us),
       glob_suspends_pending := glob_suspends_pending s
          + (if is_suspend_event e then int (length (filter (counted sender) us)) else 0),
       glob_standbys_pending := glob_standbys_pending s
          + (if is_standby_event e then int (length (filter (counted sender) us)) else 0)\<rparr>"
proof (induction us arbitrary: s)
  case Nil
  then show ?case by simp
next
  case (Cons u us)
  obtain a as where u: "u = (a, as)" by (cases u)
  show ?case
  proof (cases "receives sender (a, as)")
    case True
    then show ?thesis
      using Cons.IH [of "snd (queue_event_body e as s)"]
      by (simp add: u loop_take counted_pair queue_event_body_snd
            del: queue_event_loop.simps)
  next
    case False
    then show ?thesis
      using Cons.IH [of s]
      by (simp add: u loop_skip counted_pair del: queue_event_loop.simps)
  qed
qed

lemma queue_event_eq:
  "queue_event e sender s =
     s\<lparr>user_list :=
         map (\<lambda>u. if receives sender u then (fst u, delivered e (snd u)) else u) (user_list s),
       notified := notified s
          + length (filter (\<lambda>u. receives sender u \<and> overflows (snd u)) (user_list s)),
       glob_suspends_pending := glob_suspends_pending s
          + (if is_suspend_event e then int (length (filter (counted sender) (user_list s)))
             else 0),
       glob_standbys_pending := glob_standbys_pending s
          + (if is_standby_event e then int (length (filter (counted sender) (user_list s)))
             else 0)\<rparr>"
proof (cases "user_list s = []")
  case True
  then show ?thesis by (simp add: queue_event_def)
next
  case False
  then show ?thesis
    by (simp add: queue_event_def case_prod_beta queue_event_loop_fst queue_event_loop_snd)
qed

lemma delivered_queued:
  "queue_ok as \<Longrightarrow>
   queued (delivered e as) = (if overflows as then tl (queued as) else queued as) @ [e]"
  using queued_enqueue [of as e] by (simp add: delivered_def)

lemma delivered_queue_ok: "queue_ok as \<Longrightarrow> queue_ok (delivered e as)"
  using queue_ok_enqueue [of as e] by (simp add: delivered_def)

lemma delivered_fields:
  "magic (delivered e as) = magic as"
  "suser (delivered e as) = suser as"
  "writer (delivered e as) = writer as"
  "reader (delivered e as) = reader as"
  "suspend_wait (delivered e as) = suspend_wait as"
  "suspend_result (delivered e as) = suspend_result as"
  "suspends_read (delivered e as) = suspends_read as"
  "standbys_read (delivered e as) = standbys_read as"
  "suspends_pending (delivered e as)
     = suspends_pending as + (if suser as \<and> writer as \<and> is_suspend_event e then 1 else 0)"
  "standbys_pending (delivered e as)
     = standbys_pending as + (if suser as \<and> writer as \<and> is_standby_event e then 1 else 0)"
  by (auto simp: delivered_def enqueue_def Let_def is_suspend_event_def is_standby_event_def)

lemma delivered_rest:
  "(delivered e as)\<lparr>event_head := event_head as, event_tail := event_tail as,
      events := events as, suspends_pending := suspends_pending as,
      standbys_pending := standbys_pending as\<rparr> = as"
  by (simp add: delivered_def enqueue_def Let_def)

lemma filter_tl_le: "length (filter P (tl xs)) \<le> length (filter P xs)"
  by (cases xs) simp_all

lemma user_ok_delivered: "user_ok as \<Longrightarrow> user_ok (delivered e as)"
proof -
  assume ok: "user_ok as"
  then have q: "queue_ok as" by (simp add: user_ok_def)
  have c1: "int (length (filter is_suspend_event (queued (delivered e as))))
      \<le> int (length (filter is_suspend_event (queued as))) + (if is_suspend_event e then 1 else 0)"
    using filter_tl_le [of is_suspend_event "queued as"]
    by (simp add: delivered_queued [OF q])
  have c2: "int (length (filter is_standby_event (queued (delivered e as))))
      \<le> int (length (filter is_standby_event (queued as))) + (if is_standby_event e then 1 else 0)"
    using filter_tl_le [of is_standby_event "queued as"]
    by (simp add: delivered_queued [OF q])
  show ?thesis
    using ok c1 c2 delivered_queue_ok [OF q, of e]
    unfolding user_ok_def delivered_fields
    by (auto split: if_splits)
qed

lemma sum_pending_queue_event:
  "sum_list (map (\<lambda>u. suspends_pending (snd u))
      (map (\<lambda>u. if receives sender u then (fst u, delivered e (snd u)) else u) us))
   = sum_list (map (\<lambda>u. suspends_pending (snd u)) us)
     + (if is_suspend_event e then int (length (filter (counted sender) us)) else 0)"
  "sum_list (map (\<lambda>u. standbys_pending (snd u))
      (map (\<lambda>u. if receives sender u then (fst u, delivered e (snd u)) else u) us))
   = sum_list (map (\<lambda>u. standbys_pending (snd u)) us)
     + (if is_standby_event e then int (length (filter (counted sender) us)) else 0)"
  by (induction us) (auto simp: delivered_fields counted_def)

lemma users_ok_queue_event: "users_ok s \<Longrightarrow> users_ok (queue_event e sender s)"
proof -
  assume inv: "users_ok s"
  have fsts: "map fst (map (\<lambda>u. if receives sender u then (fst u, delivered e (snd u)) else u)
      (user_list s)) = map fst (user_list s)"
    by (induction "user_list s") auto
  have oks: "list_all (\<lambda>u. user_ok (snd u))
      (map (\<lambda>u. if receives sender u then (fst u, delivered e (snd u)) else u) (user_list s))"
    using inv by (auto simp: users_ok_def list_all_iff user_ok_delivered)
  show ?thesis
    using inv fsts oks
    by (simp add: users_ok_def queue_event_eq del: map_map)
qed

lemma conserved_queue_event: "conserved s \<Longrightarrow> conserved (queue_event e sender s)"
  by (simp add: conserved_def queue_event_eq sum_pending_queue_event del: map_map)

lemma apm_inv_queue_event: "apm_inv s \<Longrightarrow> apm_inv (queue_event e sender s)"
  by (simp add: apm_inv_def users_ok_queue_event conserved_queue_event)

lemma pendings_queue_event:
  "\<not> is_suspend_event e \<Longrightarrow> \<not> is_standby_event e \<Longrightarrow>
   pendings (queue_event e sender s) = pendings s"
  by (simp add: pendings_def queue_event_eq delivered_fields)

text \<open>
  C8 (amended). \<open>queue_event(event, sender)\<close> pushes the event into the queue of
  every connected client that was opened for reading, except the sender; the sender
  and the clients not opened for reading are left as they are. It adds one to the
  pending counter of every privileged writer among the clients the event reached,
  and as many to the global counter: the suspend counters for a system or user
  suspend, the standby counters for a system or user standby. Nothing else in a
  client changes, and nothing else in the driver but the overflow counter.
\<close>

theorem queue_event_fan_out:
  "user_list (queue_event e sender s)
     = map (\<lambda>u. if receives sender u then (fst u, delivered e (snd u)) else u) (user_list s)
   \<and> glob_suspends_pending (queue_event e sender s)
       = glob_suspends_pending s
         + (if is_suspend_event e then int (length (filter (counted sender) (user_list s)))
            else 0)
   \<and> glob_standbys_pending (queue_event e sender s)
       = glob_standbys_pending s
         + (if is_standby_event e then int (length (filter (counted sender) (user_list s)))
            else 0)
   \<and> (queue_event e sender s)
        \<lparr>user_list := user_list s, notified := notified s,
         glob_suspends_pending := glob_suspends_pending s,
         glob_standbys_pending := glob_standbys_pending s\<rparr> = s
   \<and> (queue_ok as \<longrightarrow>
        queued (delivered e as)
          = (if length (queued as) = APM_MAX_EVENTS - 1 then tl (queued as) else queued as)
            @ [e])
   \<and> suspends_pending (delivered e as)
       = suspends_pending as + (if suser as \<and> writer as \<and> is_suspend_event e then 1 else 0)
   \<and> standbys_pending (delivered e as)
       = standbys_pending as + (if suser as \<and> writer as \<and> is_standby_event e then 1 else 0)
   \<and> (delivered e as)\<lparr>event_head := event_head as, event_tail := event_tail as,
        events := events as, suspends_pending := suspends_pending as,
        standbys_pending := standbys_pending as\<rparr> = as"
proof (intro conjI impI)
  assume ok: "queue_ok as"
  show "queued (delivered e as)
          = (if length (queued as) = APM_MAX_EVENTS - 1 then tl (queued as) else queued as)
            @ [e]"
    using delivered_queued [OF ok, of e] overflows_iff [OF ok]
    by (simp add: APM_MAX_EVENTS_def)
qed (simp_all add: queue_event_eq delivered_fields delivered_rest)

theorem queue_event_fan_out_witness:
  "queue_ok root_user
   \<and> queued (delivered APM_SYS_SUSPEND root_user) = [APM_SYS_SUSPEND]
   \<and> suspends_pending (delivered APM_SYS_SUSPEND root_user) = 1
   \<and> user_list (queue_event APM_SYS_SUSPEND None two_clients)
       = [(2, root_user\<lparr>reader := False\<rparr>), (1, delivered APM_SYS_SUSPEND root_user)]
   \<and> glob_suspends_pending (queue_event APM_SYS_SUSPEND None two_clients) = 1
   \<and> glob_standbys_pending (queue_event APM_SYS_SUSPEND None two_clients) = 0"
  using queue_event_fan_out [of APM_SYS_SUSPEND None two_clients root_user] root_user_empty
  by (simp add: two_clients_def do_open_def boot_state_def root_user_def receives_def
        counted_def is_suspend_event_def is_standby_event_def APM_MAX_EVENTS_def)

theorem queue_event_skips_non_reader:
  "map fst (user_list write_only_client) = [1]
   \<and> \<not> reader (snd (user_list write_only_client ! 0))
   \<and> queue_empty (snd (user_list write_only_client ! 0))
   \<and> queue_event APM_LOW_BATTERY None write_only_client = write_only_client
   \<and> queue_empty (snd (user_list (queue_event APM_LOW_BATTERY None write_only_client) ! 0))"
  by (simp add: write_only_client_def do_open_def boot_state_def queue_event_def
        queue_empty_def)

section \<open>What the driver keeps true of its clients and counters\<close>

lemma user_ok_wait [simp]:
  "user_ok (as\<lparr>suspend_wait := b\<rparr>) = user_ok as"
  "user_ok (as\<lparr>suspend_result := r\<rparr>) = user_ok as"
  by (simp_all add: user_ok_def)

lemma users_ok_frame: "user_list s' = user_list s \<Longrightarrow> users_ok s' = users_ok s"
  by (simp add: users_ok_def)

lemma pendings_frame:
  "user_list s' = user_list s \<Longrightarrow> glob_suspends_pending s' = glob_suspends_pending s \<Longrightarrow>
   glob_standbys_pending s' = glob_standbys_pending s \<Longrightarrow> pendings s' = pendings s"
  by (simp add: pendings_def)

lemma conserved_pendings: "pendings s' = pendings s \<Longrightarrow> conserved s' = conserved s"
proof -
  assume p: "pendings s' = pendings s"
  have a: "map (\<lambda>u. suspends_pending (snd u)) (user_list t)
      = map (\<lambda>x. fst (snd x)) (snd (snd (pendings t)))" for t
    by (simp add: pendings_def)
  have b: "map (\<lambda>u. standbys_pending (snd u)) (user_list t)
      = map (\<lambda>x. snd (snd x)) (snd (snd (pendings t)))" for t
    by (simp add: pendings_def)
  have c: "glob_suspends_pending t = fst (pendings t)"
    "glob_standbys_pending t = fst (snd (pendings t))" for t
    by (simp_all add: pendings_def)
  show ?thesis unfolding conserved_def a b c p ..
qed

lemma users_ok_wait:
  "users_ok s \<Longrightarrow>
   user_list s' = map (\<lambda>u. (fst u, (snd u)\<lparr>suspend_wait := b, suspend_result := r\<rparr>)) (user_list s)
   \<Longrightarrow> users_ok s'"
  by (simp add: users_ok_def list_all_iff comp_def)

lemma suspend_out_users_ok: "users_ok s \<Longrightarrow> users_ok (snd (suspend_out err s))"
  by (rule users_ok_wait [where b = False and r = err]) (simp_all add: suspend_out_def)

lemma suspend_out_pendings: "pendings (snd (suspend_out err s)) = pendings s"
  by (simp add: suspend_out_def pendings_def comp_def)

lemma call_pm_send_all_frame:
  "user_list (snd (call_pm_send_all rqst data s)) = user_list s"
  "glob_suspends_pending (snd (call_pm_send_all rqst data s)) = glob_suspends_pending s"
  "glob_standbys_pending (snd (call_pm_send_all rqst data s)) = glob_standbys_pending s"
  by (simp_all add: call_pm_send_all_def case_prod_beta)

lemma bios_frame:
  "user_list (snd (apm_set_power_state st s)) = user_list s"
  "glob_suspends_pending (snd (apm_set_power_state st s)) = glob_suspends_pending s"
  "glob_standbys_pending (snd (apm_set_power_state st s)) = glob_standbys_pending s"
  "user_list (get_time_diff s) = user_list s"
  "glob_suspends_pending (get_time_diff s) = glob_suspends_pending s"
  "glob_standbys_pending (get_time_diff s) = glob_standbys_pending s"
  "user_list (set_time s) = user_list s"
  "glob_suspends_pending (set_time s) = glob_suspends_pending s"
  "glob_standbys_pending (set_time s) = glob_standbys_pending s"
  "user_list (reject_request s) = user_list s"
  "glob_suspends_pending (reject_request s) = glob_suspends_pending s"
  "glob_standbys_pending (reject_request s) = glob_standbys_pending s"
  "user_list (standby s) = user_list s"
  "glob_suspends_pending (standby s) = glob_suspends_pending s"
  "glob_standbys_pending (standby s) = glob_standbys_pending s"
  by (simp_all add: apm_set_power_state_def get_time_diff_def set_time_def reject_request_def
        standby_def)

lemma resume_not_counted:
  "\<not> is_suspend_event APM_NORMAL_RESUME" "\<not> is_standby_event APM_NORMAL_RESUME"
  by (simp_all add: is_suspend_event_def is_standby_event_def)

lemma call_pm_send_all_fst:
  "fst (call_pm_send_all rqst data s) = fst (pm_send_all rqst data (pm_devs s))"
  by (simp add: call_pm_send_all_def case_prod_beta)

lemma suspend_vetoed:
  "vetoed vetoable s \<Longrightarrow>
   suspend vetoable s =
     suspend_out (- EBUSY)
       ((reject_request (snd (call_pm_send_all PM_SUSPEND 3 s)))\<lparr>waiting_for_resume := False\<rparr>)"
  by (simp add: vetoed_def suspend_def case_prod_beta call_pm_send_all_fst)

lemma suspend_not_vetoed:
  "\<not> vetoed vetoable s \<Longrightarrow>
   suspend vetoable s =
     suspend_out
       (if bios_answer s APM_STATE_SUSPEND = APM_NO_ERROR
           \<or> bios_answer s APM_STATE_SUSPEND = APM_SUCCESS then 0 else - EIO)
       ((queue_event APM_NORMAL_RESUME None
           (snd (call_pm_send_all PM_RESUME 0
              (set_time (snd (apm_set_power_state APM_STATE_SUSPEND
                 (get_time_diff (snd (call_pm_send_all PM_SUSPEND 3 s)))))))))
        \<lparr>ignore_normal_resume := True\<rparr>)"
  by (auto simp: vetoed_def suspend_def case_prod_beta Let_def call_pm_send_all_fst
        apm_set_power_state_def get_time_diff_def call_pm_send_all_def)

lemma suspend_pendings: "pendings (snd (suspend vetoable s)) = pendings s"
proof -
  let ?s1 = "snd (call_pm_send_all PM_SUSPEND 3 s)"
  have p1: "pendings ?s1 = pendings s"
    by (rule pendings_frame) (simp_all add: call_pm_send_all_frame)
  show ?thesis
  proof (cases "vetoed vetoable s")
    case True
    have "pendings ((reject_request ?s1)\<lparr>waiting_for_resume := False\<rparr>) = pendings ?s1"
      by (rule pendings_frame) (simp_all add: bios_frame)
    then show ?thesis
      using p1 by (simp add: suspend_vetoed [OF True] suspend_out_pendings)
  next
    case False
    let ?s3 = "set_time (snd (apm_set_power_state APM_STATE_SUSPEND (get_time_diff ?s1)))"
    let ?s4 = "snd (call_pm_send_all PM_RESUME 0 ?s3)"
    have p4: "pendings ?s4 = pendings ?s1"
      by (rule pendings_frame) (simp_all add: call_pm_send_all_frame bios_frame)
    have p5: "pendings ((queue_event APM_NORMAL_RESUME None ?s4)\<lparr>ignore_normal_resume := True\<rparr>)
        = pendings (queue_event APM_NORMAL_RESUME None ?s4)"
      by (rule pendings_frame) simp_all
    show ?thesis
      using p1 p4 p5
      by (simp add: suspend_not_vetoed [OF False] suspend_out_pendings
            pendings_queue_event resume_not_counted)
  qed
qed

lemma suspend_users_ok: "users_ok s \<Longrightarrow> users_ok (snd (suspend vetoable s))"
proof -
  assume ok: "users_ok s"
  let ?s1 = "snd (call_pm_send_all PM_SUSPEND 3 s)"
  have u1: "users_ok ?s1"
    using ok users_ok_frame [of ?s1 s] by (simp add: call_pm_send_all_frame)
  show ?thesis
  proof (cases "vetoed vetoable s")
    case True
    have "users_ok ((reject_request ?s1)\<lparr>waiting_for_resume := False\<rparr>)"
      using u1 users_ok_frame [of "(reject_request ?s1)\<lparr>waiting_for_resume := False\<rparr>" ?s1]
      by (simp add: bios_frame)
    then show ?thesis
      by (simp add: suspend_vetoed [OF True] suspend_out_users_ok)
  next
    case False
    let ?s3 = "set_time (snd (apm_set_power_state APM_STATE_SUSPEND (get_time_diff ?s1)))"
    let ?s4 = "snd (call_pm_send_all PM_RESUME 0 ?s3)"
    let ?s5 = "queue_event APM_NORMAL_RESUME None ?s4"
    have u4: "users_ok ?s4"
      using u1 users_ok_frame [of ?s4 ?s1] by (simp add: call_pm_send_all_frame bios_frame)
    then have u5: "users_ok ?s5" by (rule users_ok_queue_event)
    have "users_ok (?s5\<lparr>ignore_normal_resume := True\<rparr>)"
      using u5 users_ok_frame [of "?s5\<lparr>ignore_normal_resume := True\<rparr>" ?s5] by simp
    then show ?thesis
      by (simp add: suspend_not_vetoed [OF False] suspend_out_users_ok)
  qed
qed

lemma apm_inv_suspend: "apm_inv s \<Longrightarrow> apm_inv (snd (suspend vetoable s))"
  using conserved_pendings [OF suspend_pendings, of vetoable s]
  by (simp add: apm_inv_def suspend_users_ok)

lemma apm_inv_frame:
  "user_list s' = user_list s \<Longrightarrow> glob_suspends_pending s' = glob_suspends_pending s \<Longrightarrow>
   glob_standbys_pending s' = glob_standbys_pending s \<Longrightarrow> apm_inv s' = apm_inv s"
  by (simp add: apm_inv_def conserved_def users_ok_def)

lemma apm_inv_standby: "apm_inv (standby s) = apm_inv s"
  by (rule apm_inv_frame) (simp_all add: bios_frame)

lemma apm_inv_reject: "apm_inv (reject_request s) = apm_inv s"
  by (rule apm_inv_frame) (simp_all add: bios_frame)

lemma apm_inv_set_time: "apm_inv (set_time s) = apm_inv s"
  by (rule apm_inv_frame) (simp_all add: bios_frame)

lemma apm_inv_call_pm: "apm_inv (snd (call_pm_send_all rqst data s)) = apm_inv s"
  by (rule apm_inv_frame) (simp_all add: call_pm_send_all_frame)

lemma apm_inv_flags [simp]:
  "apm_inv (s\<lparr>waiting_for_resume := b\<rparr>) = apm_inv s"
  "apm_inv (s\<lparr>ignore_normal_resume := b\<rparr>) = apm_inv s"
  "apm_inv (s\<lparr>ignore_bounce := b\<rparr>) = apm_inv s"
  "apm_inv (s\<lparr>last_resume := w\<rparr>) = apm_inv s"
  "apm_inv (s\<lparr>jiffies := w\<rparr>) = apm_inv s"
  "apm_inv (s\<lparr>pm_devs := d\<rparr>) = apm_inv s"
  by (simp_all add: apm_inv_def conserved_def users_ok_def)

lemma apm_inv_suspend_event: "apm_inv s \<Longrightarrow> apm_inv (snd (suspend_event e s))"
  by (simp add: suspend_event_def Let_def apm_inv_reject apm_inv_queue_event apm_inv_suspend)

lemma apm_inv_standby_event: "apm_inv s \<Longrightarrow> apm_inv (snd (standby_event e s))"
  by (simp add: standby_event_def Let_def apm_inv_standby apm_inv_queue_event)

lemma apm_inv_resume_event: "apm_inv s \<Longrightarrow> apm_inv (snd (resume_event e s))"
  by (simp add: resume_event_def Let_def apm_inv_queue_event apm_inv_call_pm apm_inv_set_time)

lemma apm_inv_prelude: "apm_inv (bounce_prelude e s) = apm_inv s"
  by (simp add: bounce_prelude_def Let_def)

lemma apm_inv_check_event: "apm_inv s \<Longrightarrow> apm_inv (snd (check_event e s))"
  by (cases e)
     (simp_all add: check_event_def Let_def apm_inv_suspend_event apm_inv_standby_event
        apm_inv_resume_event apm_inv_queue_event apm_inv_set_time apm_inv_suspend
        apm_inv_reject apm_inv_prelude)

lemma apm_inv_check_events: "apm_inv s \<Longrightarrow> apm_inv (snd (check_events es s))"
proof (induction es arbitrary: s)
  case Nil
  then show ?case by simp
next
  case (Cons e es)
  from Cons.prems have "apm_inv (snd (check_event e s))" by (rule apm_inv_check_event)
  then show ?case using Cons.IH by (simp add: case_prod_beta)
qed

section \<open>The file operations keep the invariant\<close>

lemma check_apm_user_Some:
  "check_apm_user fp s = Some as \<Longrightarrow>
   fp = Some (the fp) \<and> map_of (user_list s) (the fp) = Some as \<and> magic as = APM_BIOS_MAGIC"
  by (auto simp: check_apm_user_def split: option.splits if_splits)

lemma upd_fst:
  "map fst (map (\<lambda>u. if fst u = a then (fst u, f (snd u)) else u) us) = map fst us"
  by (induction us) auto

lemma upd_sum:
  "distinct (map fst us) \<Longrightarrow> map_of us a = Some as \<Longrightarrow>
   sum_list (map (\<lambda>u. g (snd u)) (map (\<lambda>u. if fst u = a then (fst u, f (snd u)) else u) us))
     = sum_list (map (\<lambda>u. g (snd u)) us) + (g (f as) - (g as :: int))"
proof (induction us)
  case Nil
  then show ?case by simp
next
  case (Cons u us)
  show ?case
  proof (cases "fst u = a")
    case True
    with Cons.prems have as: "snd u = as" and notin: "a \<notin> fst ` set us" by auto
    have same: "map (\<lambda>u. if fst u = a then (fst u, f (snd u)) else u) us = us"
      using notin by (induction us) auto
    show ?thesis using True as same by simp
  next
    case False
    with Cons.prems have "distinct (map fst us)" "map_of us a = Some as" by auto
    from Cons.IH [OF this] show ?thesis using False by simp
  qed
qed

lemma upd_all:
  "distinct (map fst us) \<Longrightarrow> map_of us a = Some as \<Longrightarrow>
   list_all (\<lambda>u. P (snd u)) us \<Longrightarrow> P (f as) \<Longrightarrow>
   list_all (\<lambda>u. P (snd u)) (map (\<lambda>u. if fst u = a then (fst u, f (snd u)) else u) us)"
proof -
  assume d: "distinct (map fst us)" and m: "map_of us a = Some as"
    and all: "list_all (\<lambda>u. P (snd u)) us" and p: "P (f as)"
  have "snd u = as" if "u \<in> set us" "fst u = a" for u
  proof -
    from that have "(a, snd u) \<in> set us" by (cases u) auto
    with d have "map_of us a = Some (snd u)" by simp
    with m show ?thesis by simp
  qed
  with all p show ?thesis by (auto simp: list_all_iff)
qed

lemma apm_inv_update_user:
  assumes "apm_inv s" "map_of (user_list s) a = Some as" "user_ok (f as)"
    "suspends_pending (f as) = suspends_pending as + d1"
    "standbys_pending (f as) = standbys_pending as + d2"
  shows "apm_inv ((update_user a f s)
           \<lparr>glob_suspends_pending := glob_suspends_pending s + d1,
            glob_standbys_pending := glob_standbys_pending s + d2\<rparr>)"
proof -
  from assms(1) have d: "distinct (map fst (user_list s))"
    and all: "list_all (\<lambda>u. user_ok (snd u)) (user_list s)"
    and c: "conserved s"
    by (simp_all add: apm_inv_def users_ok_def)
  show ?thesis
    using c upd_sum [OF d assms(2), of suspends_pending f]
      upd_sum [OF d assms(2), of standbys_pending f]
      upd_all [where P = user_ok and f = f, OF d assms(2) all assms(3)] d assms(4,5)
    by (simp add: apm_inv_def users_ok_def conserved_def update_user_def upd_fst del: map_map)
qed

lemma apm_inv_update_user_same:
  assumes "apm_inv s" "map_of (user_list s) a = Some as" "user_ok (f as)"
    "suspends_pending (f as) = suspends_pending as"
    "standbys_pending (f as) = standbys_pending as"
  shows "apm_inv (update_user a f s)"
proof -
  have "apm_inv ((update_user a f s)
           \<lparr>glob_suspends_pending := glob_suspends_pending s + 0,
            glob_standbys_pending := glob_standbys_pending s + 0\<rparr>)"
    using assms by (intro apm_inv_update_user [where as = as]) simp_all
  moreover have "(update_user a f s)
           \<lparr>glob_suspends_pending := glob_suspends_pending s + 0,
            glob_standbys_pending := glob_standbys_pending s + 0\<rparr> = update_user a f s"
    by (simp add: update_user_def)
  ultimately show ?thesis by simp
qed

lemma user_of_inv:
  "apm_inv s \<Longrightarrow> map_of (user_list s) a = Some as \<Longrightarrow> user_ok as"
  by (auto simp: apm_inv_def users_ok_def list_all_iff dest: map_of_SomeD)

lemma user_ok_pending_nonneg:
  "user_ok as \<Longrightarrow> 0 \<le> suspends_pending as \<and> 0 \<le> standbys_pending as"
  by (auto simp: user_ok_def split: if_splits)

subsection \<open>Opening\<close>

lemma apm_inv_do_open:
  assumes "apm_inv s" "a \<notin> fst ` set (user_list s)" "length (events raw) = APM_MAX_EVENTS"
  shows "apm_inv (snd (do_open (Some (a, raw)) capable fw fr s))"
proof -
  have "user_ok (raw\<lparr>magic := APM_BIOS_MAGIC, event_tail := 0, event_head := 0,
                       suspends_pending := 0, standbys_pending := 0,
                       suspends_read := 0, standbys_read := 0,
                       suser := capable, writer := fw, reader := fr\<rparr>)"
    using assms(3) by (simp add: user_ok_def queue_ok_def queued_def APM_MAX_EVENTS_def)
  then show ?thesis
    using assms(1,2)
    by (simp add: do_open_def apm_inv_def users_ok_def conserved_def)
qed

subsection \<open>Reading\<close>

lemma get_queued_event_fields:
  "magic (snd (get_queued_event as)) = magic as"
  "suser (snd (get_queued_event as)) = suser as"
  "writer (snd (get_queued_event as)) = writer as"
  "suspends_read (snd (get_queued_event as)) = suspends_read as"
  "standbys_read (snd (get_queued_event as)) = standbys_read as"
  "suspends_pending (snd (get_queued_event as)) = suspends_pending as"
  "standbys_pending (snd (get_queued_event as)) = standbys_pending as"
  by (simp_all add: get_queued_event_def Let_def)

lemma user_ok_pop:
  assumes "user_ok as" "\<not> queue_empty as"
  shows "user_ok (snd (get_queued_event as))"
proof -
  from assms(1) have q: "queue_ok as" by (simp add: user_ok_def)
  note g = get_queued_event_queued [OF q assms(2)]
  have "length (filter P (tl (queued as))) \<le> length (filter P (queued as))" for P
    by (rule filter_tl_le)
  from this [of is_suspend_event] this [of is_standby_event] show ?thesis
    using assms(1) g unfolding user_ok_def get_queued_event_fields
    by (auto split: if_splits)
qed

lemma user_ok_read_step:
  assumes "user_ok as" "\<not> queue_empty as"
  shows "user_ok
     (case fst (get_queued_event as) of
        APM_SYS_SUSPEND \<Rightarrow> (snd (get_queued_event as))
           \<lparr>suspends_read := suspends_read (snd (get_queued_event as)) + 1\<rparr>
      | APM_USER_SUSPEND \<Rightarrow> (snd (get_queued_event as))
           \<lparr>suspends_read := suspends_read (snd (get_queued_event as)) + 1\<rparr>
      | APM_SYS_STANDBY \<Rightarrow> (snd (get_queued_event as))
           \<lparr>standbys_read := standbys_read (snd (get_queued_event as)) + 1\<rparr>
      | APM_USER_STANDBY \<Rightarrow> (snd (get_queued_event as))
           \<lparr>standbys_read := standbys_read (snd (get_queued_event as)) + 1\<rparr>
      | _ \<Rightarrow> snd (get_queued_event as))"
proof -
  from assms(1) have q: "queue_ok as" by (simp add: user_ok_def)
  note g = get_queued_event_queued [OF q assms(2)]
  from assms q have "queued as \<noteq> []" by (simp add: queue_empty_iff)
  then obtain e es where qe: "queued as = e # es" by (cases "queued as") auto
  from g qe have e: "fst (get_queued_event as) = e"
    and es: "queued (snd (get_queued_event as)) = es"
    and ok: "queue_ok (snd (get_queued_event as))"
    by simp_all
  have pop: "user_ok (snd (get_queued_event as))" using assms by (rule user_ok_pop)
  show ?thesis
    using assms(1) pop qe es ok
    unfolding e
    by (cases e)
       (auto simp: user_ok_def get_queued_event_fields is_suspend_event_def
          is_standby_event_def split: if_splits)
qed

lemma do_read_loop_inv:
  "user_ok as \<Longrightarrow>
   user_ok (fst (snd (do_read_loop slots ok as out)))
   \<and> suspends_pending (fst (snd (do_read_loop slots ok as out))) = suspends_pending as
   \<and> standbys_pending (fst (snd (do_read_loop slots ok as out))) = standbys_pending as"
proof (induction slots arbitrary: ok as out)
  case 0
  then show ?case by simp
next
  case (Suc slots)
  show ?case
  proof (cases "queue_empty as")
    case True
    then show ?thesis using Suc.prems by simp
  next
    case False
    note pop = user_ok_pop [OF Suc.prems False]
    note step = user_ok_read_step [OF Suc.prems False]
    show ?thesis
    proof (cases ok)
      case 0
      then show ?thesis
        using False pop by (simp add: case_prod_beta get_queued_event_fields)
    next
      case (Suc ok')
      let ?as = "case fst (get_queued_event as) of
        APM_SYS_SUSPEND \<Rightarrow> (snd (get_queued_event as))
           \<lparr>suspends_read := suspends_read (snd (get_queued_event as)) + 1\<rparr>
      | APM_USER_SUSPEND \<Rightarrow> (snd (get_queued_event as))
           \<lparr>suspends_read := suspends_read (snd (get_queued_event as)) + 1\<rparr>
      | APM_SYS_STANDBY \<Rightarrow> (snd (get_queued_event as))
           \<lparr>standbys_read := standbys_read (snd (get_queued_event as)) + 1\<rparr>
      | APM_USER_STANDBY \<Rightarrow> (snd (get_queued_event as))
           \<lparr>standbys_read := standbys_read (snd (get_queued_event as)) + 1\<rparr>
      | _ \<Rightarrow> snd (get_queued_event as)"
      have p: "suspends_pending ?as = suspends_pending as \<and> standbys_pending ?as = standbys_pending as"
        by (cases "fst (get_queued_event as)") (simp_all add: get_queued_event_fields)
      from Suc.IH [OF step, of ok' "out @ [fst (get_queued_event as)]"] p
      show ?thesis
        using False Suc by (simp add: case_prod_beta)
    qed
  qed
qed

lemma apm_inv_do_read:
  "apm_inv s \<Longrightarrow> apm_inv (snd (do_read fp count nonblock sig ok s))"
proof -
  assume inv: "apm_inv s"
  show ?thesis
  proof (cases "check_apm_user fp s")
    case None
    then show ?thesis using inv by (simp add: do_read_def)
  next
    case (Some as)
    note u = check_apm_user_Some [OF Some]
    from u have m: "map_of (user_list s) (the fp) = Some as" by simp
    have ok: "user_ok as" using inv m by (rule user_of_inv)
    note l = do_read_loop_inv [OF ok, of "count div 2" ok "[]"]
    have "apm_inv (update_user (the fp)
        (\<lambda>u. fst (snd (do_read_loop (count div 2) ok as []))) s)"
      using inv m l by (intro apm_inv_update_user_same [where as = as]) simp_all
    then show ?thesis
      using inv Some by (simp add: do_read_def case_prod_beta Let_def)
  qed
qed

subsection \<open>Acknowledging and requesting\<close>

lemma apm_inv_ack_suspend:
  assumes "apm_inv s" "check_apm_user fp s = Some as" "suser as" "writer as"
  shows "apm_inv (ack_suspend fp as s)"
proof (cases "suspends_read as > 0")
  case True
  from check_apm_user_Some [OF assms(2)]
  have m: "map_of (user_list s) (the fp) = Some as" by simp
  have ok: "user_ok as" using assms(1) m by (rule user_of_inv)
  have ok': "user_ok (as\<lparr>suspends_read := suspends_read as - 1,
                         suspends_pending := suspends_pending as - 1\<rparr>)"
    using ok True assms(3,4) by (simp add: user_ok_def)
  have "apm_inv ((update_user (the fp)
           (\<lambda>u. u\<lparr>suspends_read := suspends_read u - 1,
                  suspends_pending := suspends_pending u - 1\<rparr>) s)
           \<lparr>glob_suspends_pending := glob_suspends_pending s + (- 1),
            glob_standbys_pending := glob_standbys_pending s + 0\<rparr>)"
    using assms(1) m ok' by (intro apm_inv_update_user [where as = as]) simp_all
  moreover have "ack_suspend fp as s = (update_user (the fp)
           (\<lambda>u. u\<lparr>suspends_read := suspends_read u - 1,
                  suspends_pending := suspends_pending u - 1\<rparr>) s)
           \<lparr>glob_suspends_pending := glob_suspends_pending s + (- 1),
            glob_standbys_pending := glob_standbys_pending s + 0\<rparr>"
    using True by (simp add: ack_suspend_def update_user_def)
  ultimately show ?thesis by simp
next
  case False
  then show ?thesis using assms(1) by (simp add: ack_suspend_def apm_inv_queue_event)
qed

lemma apm_inv_ack_standby:
  assumes "apm_inv s" "check_apm_user fp s = Some as" "suser as" "writer as"
  shows "apm_inv (ack_standby fp as s)"
proof (cases "standbys_read as > 0")
  case True
  from check_apm_user_Some [OF assms(2)]
  have m: "map_of (user_list s) (the fp) = Some as" by simp
  have ok: "user_ok as" using assms(1) m by (rule user_of_inv)
  have ok': "user_ok (as\<lparr>standbys_read := standbys_read as - 1,
                         standbys_pending := standbys_pending as - 1\<rparr>)"
    using ok True assms(3,4) by (simp add: user_ok_def)
  have "apm_inv ((update_user (the fp)
           (\<lambda>u. u\<lparr>standbys_read := standbys_read u - 1,
                  standbys_pending := standbys_pending u - 1\<rparr>) s)
           \<lparr>glob_suspends_pending := glob_suspends_pending s + 0,
            glob_standbys_pending := glob_standbys_pending s + (- 1)\<rparr>)"
    using assms(1) m ok' by (intro apm_inv_update_user [where as = as]) simp_all
  moreover have "ack_standby fp as s = (update_user (the fp)
           (\<lambda>u. u\<lparr>standbys_read := standbys_read u - 1,
                  standbys_pending := standbys_pending u - 1\<rparr>) s)
           \<lparr>glob_suspends_pending := glob_suspends_pending s + 0,
            glob_standbys_pending := glob_standbys_pending s + (- 1)\<rparr>"
    using True by (simp add: ack_standby_def update_user_def)
  ultimately show ?thesis by simp
next
  case False
  then show ?thesis using assms(1) by (simp add: ack_standby_def apm_inv_queue_event)
qed

lemma users_ok_addresses:
  "users_ok s' \<Longrightarrow> map fst (user_list s') = map fst (user_list s) \<Longrightarrow>
   map_of (user_list s) a = Some as \<Longrightarrow> \<exists>as'. map_of (user_list s') a = Some as'"
proof -
  assume "map fst (user_list s') = map fst (user_list s)" "map_of (user_list s) a = Some as"
  then have "a \<in> fst ` set (user_list s')"
    by (metis domI dom_map_of_conv_image_fst list.set_map)
  then show ?thesis
    by (metis domD dom_map_of_conv_image_fst)
qed

lemma queue_event_addresses:
  "map fst (user_list (queue_event e sender s)) = map fst (user_list s)"
  by (simp add: queue_event_eq comp_def if_distrib [of fst] cong: if_cong)

lemma ack_suspend_addresses:
  "map fst (user_list (ack_suspend fp as s)) = map fst (user_list s)"
  using upd_fst [of "the fp" "\<lambda>u. u\<lparr>suspends_read := suspends_read u - 1,
                                    suspends_pending := suspends_pending u - 1\<rparr>" "user_list s"]
  by (simp add: ack_suspend_def queue_event_addresses update_user_def del: map_map)

lemma apm_inv_do_ioctl: "apm_inv s \<Longrightarrow> apm_inv (snd (do_ioctl fp cmd s))"
proof -
  assume inv: "apm_inv s"
  show ?thesis
  proof (cases "check_apm_user fp s")
    case None
    then show ?thesis using inv by (simp add: do_ioctl_def)
  next
    case (Some as)
    show ?thesis
    proof (cases "suser as \<and> writer as")
      case False
      then show ?thesis using inv Some by (auto simp: do_ioctl_def)
    next
      case True
      then have su: "suser as" and wr: "writer as" by simp_all
      show ?thesis
      proof (cases cmd)
        case APM_IOC_STANDBY
        have "apm_inv (ack_standby fp as s)"
          using inv Some su wr by (rule apm_inv_ack_standby)
        then show ?thesis
          using Some True APM_IOC_STANDBY
          by (simp add: do_ioctl_def Let_def apm_inv_standby)
      next
        case APM_IOC_SUSPEND
        let ?s1 = "ack_suspend fp as s"
        have i1: "apm_inv ?s1"
          using inv Some su wr by (rule apm_inv_ack_suspend)
        show ?thesis
        proof (cases "glob_suspends_pending ?s1 \<le> 0")
          case le: True
          then show ?thesis
            using Some True APM_IOC_SUSPEND apm_inv_suspend [OF i1, of True]
            by (simp add: do_ioctl_def Let_def case_prod_beta)
        next
          case gt: False
          from check_apm_user_Some [OF Some]
          have m: "map_of (user_list s) (the fp) = Some as" by simp
          from i1 have "users_ok ?s1" by (simp add: apm_inv_def)
          from users_ok_addresses [OF this ack_suspend_addresses m]
          obtain as' where m': "map_of (user_list ?s1) (the fp) = Some as'" ..
          have ok': "user_ok as'" using i1 m' by (rule user_of_inv)
          have "apm_inv (update_user (the fp) (\<lambda>u. u\<lparr>suspend_wait := True\<rparr>) ?s1)"
            using i1 m' ok' by (intro apm_inv_update_user_same [where as = as']) simp_all
          then show ?thesis
            using Some True APM_IOC_SUSPEND gt
            by (simp add: do_ioctl_def Let_def)
        qed
      next
        case (APM_IOC_OTHER n)
        then show ?thesis using inv Some True by (simp add: do_ioctl_def)
      qed
    qed
  qed
qed

subsection \<open>Closing\<close>

lemma sum_unlink:
  "map_of us a = Some as \<Longrightarrow>
   sum_list (map (\<lambda>u. g (snd u)) (unlink a us))
     = sum_list (map (\<lambda>u. g (snd u)) us) - (g as :: int)"
  by (induction us) (auto split: if_splits)

lemma set_unlink: "set (unlink a us) \<subseteq> set us"
  by (induction us) auto

lemma distinct_unlink: "distinct (map fst us) \<Longrightarrow> distinct (map fst (unlink a us))"
proof (induction us)
  case Nil
  then show ?case by simp
next
  case (Cons u us)
  then show ?case using set_unlink [of a us] by auto
qed

lemma release_standbys_facts:
  "user_list (release_standbys as s) = user_list s"
  "glob_suspends_pending (release_standbys as s) = glob_suspends_pending s"
  "glob_standbys_pending (release_standbys as s)
     = glob_standbys_pending s - (if standbys_pending as > 0 then standbys_pending as else 0)"
  by (simp_all add: release_standbys_def Let_def bios_frame)

lemma release_suspends_facts:
  "snd (snd (pendings (release_suspends as s))) = snd (snd (pendings s))"
  "glob_standbys_pending (release_suspends as s) = glob_standbys_pending s"
  "glob_suspends_pending (release_suspends as s)
     = glob_suspends_pending s - (if suspends_pending as > 0 then suspends_pending as else 0)"
  "users_ok s \<Longrightarrow> users_ok (release_suspends as s)"
proof -
  let ?t = "s\<lparr>glob_suspends_pending := glob_suspends_pending s - suspends_pending as\<rparr>"
  have p: "pendings (snd (suspend True ?t)) = pendings ?t" by (rule suspend_pendings)
  have pt: "snd (snd (pendings ?t)) = snd (snd (pendings s))"
    "fst (snd (pendings ?t)) = glob_standbys_pending s"
    "fst (pendings ?t) = glob_suspends_pending s - suspends_pending as"
    by (simp_all add: pendings_def)
  have g: "glob_suspends_pending x = fst (pendings x)"
    "glob_standbys_pending x = fst (snd (pendings x))" for x
    by (simp_all add: pendings_def)
  show "snd (snd (pendings (release_suspends as s))) = snd (snd (pendings s))"
    using p pt by (simp add: release_suspends_def Let_def)
  show "glob_standbys_pending (release_suspends as s) = glob_standbys_pending s"
    using p pt by (simp add: release_suspends_def Let_def g)
  show "glob_suspends_pending (release_suspends as s)
     = glob_suspends_pending s - (if suspends_pending as > 0 then suspends_pending as else 0)"
    using p pt by (simp add: release_suspends_def Let_def g)
  show "users_ok (release_suspends as s)" if ok: "users_ok s"
  proof -
    have "users_ok ?t" using ok users_ok_frame [of ?t s] by simp
    then show ?thesis
      using ok suspend_users_ok [of ?t True] by (simp add: release_suspends_def Let_def)
  qed
qed

lemma pendings_lookup:
  assumes "snd (snd (pendings s')) = snd (snd (pendings s))" "map_of (user_list s) a = Some as"
  shows "\<exists>as'. map_of (user_list s') a = Some as'
           \<and> suspends_pending as' = suspends_pending as
           \<and> standbys_pending as' = standbys_pending as"
proof -
  have look: "map_of (map (\<lambda>u. (fst u, suspends_pending (snd u), standbys_pending (snd u))) us) a
      = map_option (\<lambda>x. (suspends_pending x, standbys_pending x)) (map_of us a)" for us
    by (induction us) auto
  from assms(1) have "map_of (map (\<lambda>u. (fst u, suspends_pending (snd u), standbys_pending (snd u)))
      (user_list s')) a
    = map_of (map (\<lambda>u. (fst u, suspends_pending (snd u), standbys_pending (snd u)))
      (user_list s)) a"
    by (simp add: pendings_def)
  then show ?thesis using assms(2) by (auto simp: look)
qed

lemma do_release_counts:
  assumes "apm_inv s" "check_apm_user fp s = Some as"
  shows "glob_suspends_pending (snd (do_release fp s))
           = glob_suspends_pending s - suspends_pending as
       \<and> glob_standbys_pending (snd (do_release fp s))
           = glob_standbys_pending s - standbys_pending as
       \<and> apm_inv (snd (do_release fp s))"
proof -
  from check_apm_user_Some [OF assms(2)]
  have m: "map_of (user_list s) (the fp) = Some as" by simp
  have ok: "user_ok as" using assms(1) m by (rule user_of_inv)
  note nn = user_ok_pending_nonneg [OF ok]
  let ?s1 = "release_standbys as s" and ?s2 = "release_suspends as (release_standbys as s)"
  have u1: "users_ok ?s1"
    using assms(1) users_ok_frame [of ?s1 s] by (simp add: apm_inv_def release_standbys_facts)
  then have u2: "users_ok ?s2" by (rule release_suspends_facts)
  have p1: "snd (snd (pendings ?s1)) = snd (snd (pendings s))"
    by (simp add: pendings_def release_standbys_facts)
  have p2: "snd (snd (pendings ?s2)) = snd (snd (pendings s))"
    using p1 by (simp add: release_suspends_facts)
  from pendings_lookup [OF p2 m] obtain as' where
    m': "map_of (user_list ?s2) (the fp) = Some as'"
    and sp: "suspends_pending as' = suspends_pending as"
    and st: "standbys_pending as' = standbys_pending as" by blast
  have g1: "glob_suspends_pending ?s2 = glob_suspends_pending s - suspends_pending as"
    using nn by (simp add: release_suspends_facts release_standbys_facts)
  have g2: "glob_standbys_pending ?s2 = glob_standbys_pending s - standbys_pending as"
    using nn by (simp add: release_suspends_facts release_standbys_facts)
  have sums: "sum_list (map (\<lambda>u. suspends_pending (snd u)) (user_list ?s2))
                = sum_list (map (\<lambda>u. suspends_pending (snd u)) (user_list s))"
    "sum_list (map (\<lambda>u. standbys_pending (snd u)) (user_list ?s2))
                = sum_list (map (\<lambda>u. standbys_pending (snd u)) (user_list s))"
  proof -
    have a: "map (\<lambda>u. suspends_pending (snd u)) (user_list t)
        = map (\<lambda>x. fst (snd x)) (snd (snd (pendings t)))" for t
      by (simp add: pendings_def)
    have b: "map (\<lambda>u. standbys_pending (snd u)) (user_list t)
        = map (\<lambda>x. snd (snd x)) (snd (snd (pendings t)))" for t
      by (simp add: pendings_def)
    show "sum_list (map (\<lambda>u. suspends_pending (snd u)) (user_list ?s2))
                = sum_list (map (\<lambda>u. suspends_pending (snd u)) (user_list s))"
      unfolding a p2 ..
    show "sum_list (map (\<lambda>u. standbys_pending (snd u)) (user_list ?s2))
                = sum_list (map (\<lambda>u. standbys_pending (snd u)) (user_list s))"
      unfolding b p2 ..
  qed
  from assms(1) have c: "conserved s" by (simp add: apm_inv_def)
  have rel: "snd (do_release fp s) = ?s2\<lparr>user_list := unlink (the fp) (user_list ?s2)\<rparr>"
    using assms(2) by (simp add: do_release_def Let_def)
  have cons: "conserved (?s2\<lparr>user_list := unlink (the fp) (user_list ?s2)\<rparr>)"
    using c g1 g2 sums sum_unlink [OF m', of suspends_pending]
      sum_unlink [OF m', of standbys_pending] sp st
    by (simp add: conserved_def)
  have uok: "users_ok (?s2\<lparr>user_list := unlink (the fp) (user_list ?s2)\<rparr>)"
    using u2 set_unlink [of "the fp" "user_list ?s2"] distinct_unlink [of "user_list ?s2" "the fp"]
    by (auto simp: users_ok_def list_all_iff)
  show ?thesis
    using g1 g2 cons uok by (simp add: rel apm_inv_def)
qed

lemma apm_inv_do_release: "apm_inv s \<Longrightarrow> apm_inv (snd (do_release fp s))"
proof (cases "check_apm_user fp s")
  case None
  assume "apm_inv s"
  with None show ?thesis by (simp add: do_release_def)
next
  case (Some as)
  assume "apm_inv s"
  from do_release_counts [OF this Some] show ?thesis by simp
qed

subsection \<open>Histories\<close>

lemma apm_inv_apply:
  "apm_inv s \<Longrightarrow> apm_valid (x # ops) s \<Longrightarrow> apm_inv (apm_apply x s)"
proof (cases x)
  case (Open kmalloc capable fw fr)
  assume inv: "apm_inv s" and v: "apm_valid (x # ops) s"
  show ?thesis
  proof (cases kmalloc)
    case None
    then show ?thesis using inv Open by (simp add: do_open_def)
  next
    case (Some blk)
    obtain a raw where blk: "blk = (a, raw)" by (cases blk)
    from v Open Some blk have "a \<notin> fst ` set (user_list s)"
      "length (events raw) = APM_MAX_EVENTS" by simp_all
    from apm_inv_do_open [OF inv this] show ?thesis by (simp add: Open Some blk)
  qed
qed (simp_all add: apm_inv_do_release apm_inv_do_read apm_inv_do_ioctl apm_inv_check_events
       apm_inv_queue_event)

lemma apm_valid_tail: "apm_valid (x # ops) s \<Longrightarrow> apm_valid ops (apm_apply x s)"
proof (cases x)
  case (Open kmalloc capable fw fr)
  assume "apm_valid (x # ops) s"
  then show ?thesis using Open by (cases kmalloc) auto
qed simp_all

lemma apm_inv_run: "apm_inv s \<Longrightarrow> apm_valid ops s \<Longrightarrow> apm_inv (apm_run ops s)"
proof (induction ops arbitrary: s)
  case Nil
  then show ?case by simp
next
  case (Cons x ops)
  from Cons.prems have "apm_inv (apm_apply x s)" by (rule apm_inv_apply)
  moreover from Cons.prems(2) have "apm_valid ops (apm_apply x s)" by (rule apm_valid_tail)
  ultimately show ?case using Cons.IH by simp
qed

lemma apm_inv_initial:
  "user_list s = [] \<Longrightarrow> glob_suspends_pending s = 0 \<Longrightarrow> glob_standbys_pending s = 0 \<Longrightarrow>
   apm_inv s"
  by (simp add: apm_inv_def conserved_def users_ok_def)

text \<open>
  C2. In every state the driver reaches from its initial state by opening, closing,
  reading, acknowledging or requesting (ioctl), handling BIOS events, broadcasting
  an event, registering devices and the passing of time, the global
  \<open>suspends_pending\<close> is the sum of the \<open>suspends_pending\<close> of the connected
  clients, and the global \<open>standbys_pending\<close> the sum of their
  \<open>standbys_pending\<close>. Closing a client's file takes exactly that client's counts
  off the global counters, and the equality holds again afterwards.
\<close>

theorem counters_conserved:
  "user_list s = [] \<and> glob_suspends_pending s = 0 \<and> glob_standbys_pending s = 0
     \<and> apm_valid ops s \<longrightarrow>
     conserved (apm_run ops s)
   \<and> (\<forall>fp as. check_apm_user fp (apm_run ops s) = Some as \<longrightarrow>
         glob_suspends_pending (snd (do_release fp (apm_run ops s)))
           = glob_suspends_pending (apm_run ops s) - suspends_pending as
       \<and> glob_standbys_pending (snd (do_release fp (apm_run ops s)))
           = glob_standbys_pending (apm_run ops s) - standbys_pending as
       \<and> conserved (snd (do_release fp (apm_run ops s))))"
proof (intro impI)
  assume h: "user_list s = [] \<and> glob_suspends_pending s = 0 \<and> glob_standbys_pending s = 0
     \<and> apm_valid ops s"
  then have "apm_inv s" by (simp add: apm_inv_initial)
  with h have inv: "apm_inv (apm_run ops s)" by (simp add: apm_inv_run)
  show "conserved (apm_run ops s)
   \<and> (\<forall>fp as. check_apm_user fp (apm_run ops s) = Some as \<longrightarrow>
         glob_suspends_pending (snd (do_release fp (apm_run ops s)))
           = glob_suspends_pending (apm_run ops s) - suspends_pending as
       \<and> glob_standbys_pending (snd (do_release fp (apm_run ops s)))
           = glob_standbys_pending (apm_run ops s) - standbys_pending as
       \<and> conserved (snd (do_release fp (apm_run ops s))))"
    using inv do_release_counts [OF inv] by (simp add: apm_inv_def)
qed

lemma standby_history_state:
  "user_list (apm_run standby_history (boot_state []))
     = [(1, delivered APM_SYS_STANDBY root_user)]
   \<and> glob_standbys_pending (apm_run standby_history (boot_state [])) = 1
   \<and> glob_suspends_pending (apm_run standby_history (boot_state [])) = 0"
  by (simp add: standby_history_def do_open_def check_event_def bounce_prelude_def
        standby_event_def queue_event_eq boot_state_def root_user_def receives_def counted_def
        is_standby_event_def is_suspend_event_def Let_def)

theorem counters_conserved_witness:
  "user_list (boot_state []) = [] \<and> glob_suspends_pending (boot_state []) = 0
   \<and> glob_standbys_pending (boot_state []) = 0
   \<and> apm_valid standby_history (boot_state [])
   \<and> conserved (apm_run standby_history (boot_state []))
   \<and> glob_standbys_pending (apm_run standby_history (boot_state [])) = 1
   \<and> check_apm_user (Some 1) (apm_run standby_history (boot_state []))
       = Some (delivered APM_SYS_STANDBY root_user)
   \<and> glob_standbys_pending
        (snd (do_release (Some 1) (apm_run standby_history (boot_state [])))) = 0
   \<and> conserved (snd (do_release (Some 1) (apm_run standby_history (boot_state []))))"
proof -
  let ?s = "apm_run standby_history (boot_state [])"
  have i: "user_list (boot_state []) = [] \<and> glob_suspends_pending (boot_state []) = 0
      \<and> glob_standbys_pending (boot_state []) = 0"
    by (simp add: boot_state_def)
  have v: "apm_valid standby_history (boot_state [])"
    by (simp add: standby_history_def boot_state_def raw_block_def APM_MAX_EVENTS_def)
  have chk: "check_apm_user (Some 1) ?s = Some (delivered APM_SYS_STANDBY root_user)"
    using standby_history_state
    by (simp add: check_apm_user_def delivered_fields root_user_def)
  have pend: "standbys_pending (delivered APM_SYS_STANDBY root_user) = 1"
    by (simp add: delivered_fields root_user_def raw_block_def is_standby_event_def)
  from counters_conserved [of "boot_state []" standby_history] i v
  have c: "conserved ?s"
    and r: "\<forall>fp as. check_apm_user fp ?s = Some as \<longrightarrow>
         glob_suspends_pending (snd (do_release fp ?s))
           = glob_suspends_pending ?s - suspends_pending as
       \<and> glob_standbys_pending (snd (do_release fp ?s))
           = glob_standbys_pending ?s - standbys_pending as
       \<and> conserved (snd (do_release fp ?s))"
    by simp_all
  from r chk have "glob_standbys_pending (snd (do_release (Some 1) ?s))
           = glob_standbys_pending ?s - standbys_pending (delivered APM_SYS_STANDBY root_user)"
    and "conserved (snd (do_release (Some 1) ?s))"
    by blast+
  with i v c chk pend standby_history_state show ?thesis by simp
qed

section \<open>Suspending, resuming, and the bounce window\<close>


lemma call_pm_send_all_snd:
  "snd (call_pm_send_all rqst data s) =
     s\<lparr>pm_devs := fst (snd (pm_send_all rqst data (pm_devs s))),
       effects := effects s @ Pm_send_all_called rqst data
                    # callback_effects (snd (snd (pm_send_all rqst data (pm_devs s))))\<rparr>"
  by (simp add: call_pm_send_all_def case_prod_beta)

lemma suspend_vetoed_effects:
  assumes "vetoed vetoable s"
  shows "fst (suspend vetoable s) = - EBUSY"
    and "effects (snd (suspend vetoable s)) =
           effects s @ suspend_broadcast s
             @ (if connection_version s > 0x100 then [Bios_set_power_state APM_STATE_REJECT]
                else [])"
    and "pm_devs (snd (suspend vetoable s)) = fst (snd (pm_send_all PM_SUSPEND 3 (pm_devs s)))"
    and "user_list (snd (suspend vetoable s)) =
           map (\<lambda>u. (fst u, (snd u)\<lparr>suspend_wait := False, suspend_result := - EBUSY\<rparr>))
             (user_list s)"
    and "\<not> waiting_for_resume (snd (suspend vetoable s))"
  by (simp_all add: suspend_vetoed [OF assms] suspend_out_def reject_request_def
        apm_set_power_state_def call_pm_send_all_snd suspend_broadcast_def)

lemma suspend_not_vetoed_effects:
  assumes "\<not> vetoed vetoable s"
  shows "fst (suspend vetoable s) =
           (if bios_answer s APM_STATE_SUSPEND = APM_NO_ERROR
               \<or> bios_answer s APM_STATE_SUSPEND = APM_SUCCESS then 0 else - EIO)"
    and "effects (snd (suspend vetoable s)) =
           effects s @ suspend_broadcast s
             @ [Get_time_diff, Bios_set_power_state APM_STATE_SUSPEND, Set_time]
             @ resume_broadcast s"
    and "pm_devs (snd (suspend vetoable s)) =
           fst (snd (pm_send_all PM_RESUME 0 (fst (snd (pm_send_all PM_SUSPEND 3 (pm_devs s))))))"
    and "user_list (snd (suspend vetoable s)) =
           map (\<lambda>u. (fst u,
                  (if reader (snd u) then delivered APM_NORMAL_RESUME (snd u) else snd u)
                    \<lparr>suspend_wait := False,
                     suspend_result :=
                       (if bios_answer s APM_STATE_SUSPEND = APM_NO_ERROR
                           \<or> bios_answer s APM_STATE_SUSPEND = APM_SUCCESS then 0 else - EIO)\<rparr>))
             (user_list s)"
    and "ignore_normal_resume (snd (suspend vetoable s))"
    and "waiting_for_resume (snd (suspend vetoable s)) = waiting_for_resume s"
    and "ignore_bounce (snd (suspend vetoable s)) = ignore_bounce s"
    and "last_resume (snd (suspend vetoable s)) = last_resume s"
  by (simp_all add: suspend_not_vetoed [OF assms] suspend_out_def queue_event_eq
        apm_set_power_state_def get_time_diff_def set_time_def call_pm_send_all_snd
        suspend_broadcast_def resume_broadcast_def receives_def comp_def
        if_distrib [of "\<lambda>x. x\<lparr>suspend_wait := False, suspend_result := _\<rparr>"]
        cong: if_cong)










lemma prelude_frame:
  "effects (bounce_prelude e s) = effects s"
  "pm_devs (bounce_prelude e s) = pm_devs s"
  "user_list (bounce_prelude e s) = user_list s"
  "glob_suspends_pending (bounce_prelude e s) = glob_suspends_pending s"
  "bios_answer (bounce_prelude e s) = bios_answer s"
  "connection_version (bounce_prelude e s) = connection_version s"
  by (simp_all add: bounce_prelude_def Let_def)

lemma no_bios_in_callbacks: "Bios_set_power_state st \<notin> set (callback_effects calls)"
  by (auto simp: callback_effects_def)

text \<open>
  C6 (amended). A critical suspend event always runs \<open>suspend(0)\<close>, whatever the
  global suspend counter is: the devices get the suspend broadcast, and whether or
  not a device vetoes it the BIOS suspend is applied and the result reports only
  the BIOS status. A vetoable suspend that a device vetoes is aborted before the
  BIOS suspend call: the only call made to the BIOS is the rejection of the request,
  sent when the connection version is above 1.0, and \<open>-EBUSY\<close> is returned to the
  requester and left as the result for every waiting client.
\<close>

theorem critical_suspend_not_vetoable:
  "check_event APM_CRITICAL_SUSPEND s
     = (True, snd (suspend False (bounce_prelude APM_CRITICAL_SUSPEND s)))
   \<and> effects (bounce_prelude APM_CRITICAL_SUSPEND s) = effects s
   \<and> pm_devs (bounce_prelude APM_CRITICAL_SUSPEND s) = pm_devs s
   \<and> fst (suspend False t)
       = (if bios_answer t APM_STATE_SUSPEND = APM_NO_ERROR
             \<or> bios_answer t APM_STATE_SUSPEND = APM_SUCCESS then 0 else - EIO)
   \<and> effects (snd (suspend False t))
       = effects t @ suspend_broadcast t
           @ [Get_time_diff, Bios_set_power_state APM_STATE_SUSPEND, Set_time]
           @ resume_broadcast t
   \<and> (fst (pm_send_all PM_SUSPEND 3 (pm_devs t)) \<noteq> 0 \<longrightarrow>
        fst (suspend True t) = - EBUSY
      \<and> effects (snd (suspend True t))
          = effects t @ suspend_broadcast t
              @ (if connection_version t > 0x100 then [Bios_set_power_state APM_STATE_REJECT]
                 else [])
      \<and> Bios_set_power_state APM_STATE_SUSPEND
          \<notin> set (drop (length (effects t)) (effects (snd (suspend True t))))
      \<and> list_all (\<lambda>u. suspend_result (snd u) = - EBUSY \<and> \<not> suspend_wait (snd u))
          (user_list (snd (suspend True t))))"
proof (intro conjI impI)
  have nv: "\<not> vetoed False t" by (simp add: vetoed_def)
  show "check_event APM_CRITICAL_SUSPEND s
     = (True, snd (suspend False (bounce_prelude APM_CRITICAL_SUSPEND s)))"
    by (simp add: check_event_def Let_def)
  show "fst (suspend False t)
       = (if bios_answer t APM_STATE_SUSPEND = APM_NO_ERROR
             \<or> bios_answer t APM_STATE_SUSPEND = APM_SUCCESS then 0 else - EIO)"
    by (rule suspend_not_vetoed_effects [OF nv])
  show "effects (snd (suspend False t))
       = effects t @ suspend_broadcast t
           @ [Get_time_diff, Bios_set_power_state APM_STATE_SUSPEND, Set_time]
           @ resume_broadcast t"
    by (rule suspend_not_vetoed_effects [OF nv])
next
  assume "fst (pm_send_all PM_SUSPEND 3 (pm_devs t)) \<noteq> 0"
  then have v: "vetoed True t" by (simp add: vetoed_def)
  note e = suspend_vetoed_effects [OF v]
  show "fst (suspend True t) = - EBUSY" by (rule e)
  show "effects (snd (suspend True t))
          = effects t @ suspend_broadcast t
              @ (if connection_version t > 0x100 then [Bios_set_power_state APM_STATE_REJECT]
                 else [])"
    by (rule e)
  show "Bios_set_power_state APM_STATE_SUSPEND
          \<notin> set (drop (length (effects t)) (effects (snd (suspend True t))))"
    by (simp add: e suspend_broadcast_def no_bios_in_callbacks)
  show "list_all (\<lambda>u. suspend_result (snd u) = - EBUSY \<and> \<not> suspend_wait (snd u))
          (user_list (snd (suspend True t)))"
    by (simp add: e list_all_iff)
qed (simp_all add: prelude_frame)

theorem critical_suspend_not_vetoable_witness:
  "fst (pm_send_all PM_SUSPEND 3 (pm_devs veto_state)) \<noteq> 0
   \<and> fst (suspend True veto_state) = - 16
   \<and> fst (suspend False veto_state) = 0
   \<and> effects (snd (suspend False veto_state))
       = [Pm_send_all_called PM_SUSPEND 3, Pm_callback 1 PM_SUSPEND 3, Get_time_diff,
          Bios_set_power_state APM_STATE_SUSPEND, Set_time, Pm_send_all_called PM_RESUME 0]
   \<and> snd (check_event APM_CRITICAL_SUSPEND veto_state)
       = snd (suspend False (bounce_prelude APM_CRITICAL_SUSPEND veto_state))"
  using critical_suspend_not_vetoable [of veto_state veto_state]
  by (simp add: veto_state_def boot_state_def suspend_broadcast_def resume_broadcast_def
        callback_effects_def pm_send_all_def pm_send_def fresh_dev_def veto_callback_def
        tag_calls_def Let_def EBUSY_def APM_SUCCESS_def APM_NO_ERROR_def)

theorem vetoed_suspend_calls_bios:
  "fst (suspend True veto_state) = - EBUSY
   \<and> effects veto_state = []
   \<and> effects (snd (suspend True veto_state))
       = [Pm_send_all_called PM_SUSPEND 3, Pm_callback 1 PM_SUSPEND 3,
          Bios_set_power_state APM_STATE_REJECT]"
  by (simp add: veto_state_def boot_state_def suspend_def call_pm_send_all_def
        reject_request_def apm_set_power_state_def suspend_out_def callback_effects_def
        pm_send_all_def pm_send_def fresh_dev_def veto_callback_def tag_calls_def Let_def)













end
